theory Spec2Isabelle
  imports Main "HOL-Library.AList" "HOL-Library.Sublist" "HOL-Library.Multiset"
begin

section \<open>The data model of \<open>src/Trie.js\<close>\<close>

text \<open>
  A \<open>Node\<close> object has three properties: \<open>socket\<close> (an object whose own
  properties are the child edges, one per character), \<open>name\<close> (the stored key)
  and \<open>value\<close>. A property that was never assigned, or that was removed with
  \<open>delete\<close>, reads as \<open>undefined\<close>: it is \<open>None\<close> here.

  A JavaScript object used as a dictionary is an association list of its own
  properties in the order of their creation: assigning to an existing
  property keeps its place, assigning to a new one appends it, \<open>delete\<close>
  removes it. No operation of the class moves a node, copies one or shares one
  between two parents, so the objects form a tree and the tree is the datatype.
\<close>

datatype 'v node =
  Node (name: "string option") (val: "'v option") (socket: "(char \<times> 'v node) list")

text \<open>
  Modelled from the spec: \<open>src/Node.js\<close> is not among the sources. \<open>new Node()\<close>
  is a node with no label, no value and an empty child mapping;
  \<open>new Node({ socket: s })\<close> is such a node whose child mapping is the object
  \<open>s\<close> itself, so that what is written through it is written to \<open>s\<close>.
\<close>

definition new_Node :: "'v node" where
  "new_Node = Node None None []"

definition new_Node_socket :: "(char \<times> 'v node) list \<Rightarrow> 'v node" where
  "new_Node_socket s = Node None None s"

text \<open>
  The store. The object \<open>this.table\<close> maps a key to a reference to a node
  object. The node that \<open>set\<close> stores under \<open>key\<close> is the one it reached by
  walking \<open>key\<close> from the root, and nodes never move, so as long as the node is
  in the tree the reference is represented by that path, which is the key
  itself: \<open>table\<close> is the list of the own property names of the object whose
  node is in the tree, and such a reference is followed with \<open>deref\<close>. (If the
  path were missing the lookup would be \<open>Detached\<close>; no store that the
  operations build from the empty one yields it, lemmas \<open>refs_ok_run\<close> and
  \<open>lookup_not_detached\<close>.)

  When \<open>remove\<close> cuts an edge of the tree, every node below the edge leaves the
  tree for good: no operation puts a node back. The object still holds the
  references to such nodes. \<open>stale\<close> is the list of the own properties of the
  object whose node has left the tree, each with its node as it was when it
  left. Of such a node only its own \<open>name\<close>, \<open>value\<close> and number of children
  are ever read again, and it is written again only by the \<open>remove\<close> that
  drops the reference.

  \<open>proto\<close> is the prototype of the object when an assignment to
  \<open>this.table['__proto__']\<close> has replaced it: the node that was assigned, in the
  tree at the path of that key or out of it. It is \<open>None\<close> for the prototype
  that \<open>{}\<close> has from the start.

  A character of a key is a \<open>char\<close>. Nothing below depends on the alphabet
  but the special place of the ten digits in \<open>Object.keys\<close>. The values are of
  any type \<open>'v\<close>; \<open>undefined\<close> is not one of them.
\<close>

datatype 'v ref = In_tree | Off_tree "'v node"

record 'v trie =
  rootSocket :: "(char \<times> 'v node) list"
  table :: "string list"
  stale :: "(string \<times> 'v node) list"
  proto :: "'v ref option"

definition constructor :: "'v trie" where
  "constructor = \<lparr>rootSocket = [], table = [], stale = [], proto = None\<rparr>"

text \<open>
  How JavaScript sees a stored value, for the one place where the class reads
  a stored value as if it were a node (a lookup of the key \<open>value\<close> through a
  replaced prototype): whether the value is falsy; its property \<open>value\<close>;
  the length of \<open>Object.keys\<close> of its property \<open>socket\<close>, or \<open>None\<close> when that
  call throws, as it does when the property is \<open>undefined\<close>; and the value
  after \<open>delete v.name\<close> and \<open>delete v.value\<close>. It is a parameter of \<open>get\<close> and
  \<open>remove\<close>.
\<close>

record 'v view =
  is_falsy :: "'v \<Rightarrow> bool"
  value_property :: "'v \<Rightarrow> 'v option"
  socket_keys :: "'v \<Rightarrow> nat option"
  without_name_value :: "'v \<Rightarrow> 'v"

subsection \<open>JavaScript primitives used by the class\<close>

text \<open>A string is truthy unless it is empty; \<open>undefined\<close> is falsy.\<close>

fun truthy :: "string option \<Rightarrow> bool" where
  "truthy None = False"
| "truthy (Some k) = (k \<noteq> [])"

text \<open>
  \<open>Object.keys\<close> lists the own properties whose names are array indices first,
  in ascending numeric order, and then all others in the order of their
  creation. Among one-character names the array indices are the ten digits.
\<close>

definition is_index :: "char \<Rightarrow> bool" where
  "is_index c = (48 \<le> (of_char c :: nat) \<and> (of_char c :: nat) \<le> 57)"

definition Object_entries :: "(char \<times> 'a) list \<Rightarrow> (char \<times> 'a) list" where
  "Object_entries cs =
     sort_key (\<lambda>e. (of_char (fst e) :: nat)) (filter (\<lambda>e. is_index (fst e)) cs)
     @ filter (\<lambda>e. \<not> is_index (fst e)) cs"

definition Object_keys :: "(char \<times> 'a) list \<Rightarrow> char list" where
  "Object_keys cs = map fst (Object_entries cs)"

text \<open>
  Reading \<open>this.table[query]\<close> finds an own property, or else a property that
  the object inherits, or else \<open>undefined\<close>. What every plain object inherits
  from \<open>Object.prototype\<close> are functions, and for \<open>__proto__\<close> the prototype
  object itself: all truthy, none with a \<open>socket\<close> or a \<open>value\<close> property. That
  is the lookup result \<open>Inherited\<close>.
\<close>

definition Object_prototype_names :: "string list" where
  "Object_prototype_names =
     [''constructor'', ''hasOwnProperty'', ''isPrototypeOf'', ''propertyIsEnumerable'',
      ''toLocaleString'', ''toString'', ''valueOf'', ''__proto__'',
      ''__defineGetter__'', ''__defineSetter__'', ''__lookupGetter__'', ''__lookupSetter__'']"

datatype 'v looked_up = Undefined | Inherited | Found "'v node" | Detached | Stored 'v

datatype error = TypeError

subsection \<open>Walking the tree\<close>

text \<open>\<open>_getClosestNode\<close>: the loop of lines 224 to 232, from a given node.\<close>

fun walk :: "'v node \<Rightarrow> string \<Rightarrow> 'v node option" where
  "walk node [] = Some node"
| "walk node (c # cs) =
     (case map_of (socket node) c of
        None \<Rightarrow> None
      | Some child \<Rightarrow> walk child cs)"

definition getClosestNode :: "'v trie \<Rightarrow> string \<Rightarrow> 'v node option" where
  "getClosestNode s query = walk (new_Node_socket (rootSocket s)) query"

definition deref :: "'v trie \<Rightarrow> string \<Rightarrow> 'v node option" where
  "deref s k = walk (new_Node_socket (rootSocket s)) k"

text \<open>The node that a reference to the node of the key \<open>__proto__\<close> stands for.\<close>

definition proto_node :: "'v trie \<Rightarrow> 'v ref \<Rightarrow> 'v node option" where
  "proto_node s r =
     (case r of
        In_tree \<Rightarrow> walk (new_Node_socket (rootSocket s)) ''__proto__''
      | Off_tree n \<Rightarrow> Some n)"

text \<open>
  Modelled from the spec: \<open>src/Node.js\<close> is not among the sources. A node has the
  own properties \<open>socket\<close>, \<open>name\<close> and \<open>value\<close> and no other, and the prototype
  of the class has only its \<open>constructor\<close>, above \<open>Object.prototype\<close>.

  What a lookup finds through a node that is the prototype of the table:
  \<open>__proto__\<close> is the node itself; \<open>socket\<close> is its child mapping, a truthy
  object whose own properties are single characters; \<open>name\<close> is its label, a
  non-empty string, when it has one; \<open>value\<close> is the stored value, when it
  has one; the other names are those of \<open>Object.prototype\<close>, functions as
  before.
\<close>

definition through_prototype :: "'v node \<Rightarrow> string \<Rightarrow> 'v looked_up" where
  "through_prototype n query =
     (if query = ''__proto__'' then Found n
      else if query = ''socket'' then Inherited
      else if query = ''name'' then (if truthy (name n) then Inherited else Undefined)
      else if query = ''value'' then (case val n of None \<Rightarrow> Undefined | Some v \<Rightarrow> Stored v)
      else if query \<in> set Object_prototype_names then Inherited
      else Undefined)"

definition table_lookup :: "'v trie \<Rightarrow> string \<Rightarrow> 'v looked_up" where
  "table_lookup s query =
     (if query \<in> set (table s) then
        (case deref s query of Some n \<Rightarrow> Found n | None \<Rightarrow> Detached)
      else
        (case map_of (stale s) query of
           Some n \<Rightarrow> Found n
         | None \<Rightarrow>
             (case proto s of
                None \<Rightarrow> if query \<in> set Object_prototype_names then Inherited else Undefined
              | Some r \<Rightarrow>
                  (case proto_node s r of
                     None \<Rightarrow> Detached
                   | Some n \<Rightarrow> through_prototype n query))))"

text \<open>
  An assignment through a reference: the node at path \<open>p\<close> below \<open>node\<close> is
  replaced by \<open>f\<close> of it, in place. Nothing changes when the path does not exist.
\<close>

fun modify_at :: "('v node \<Rightarrow> 'v node) \<Rightarrow> string \<Rightarrow> 'v node \<Rightarrow> 'v node" where
  "modify_at f [] node = f node"
| "modify_at f (c # cs) node =
     (case map_of (socket node) c of
        None \<Rightarrow> node
      | Some child \<Rightarrow>
          Node (name node) (val node) (AList.update c (modify_at f cs child) (socket node)))"

section \<open>The operations\<close>

subsection \<open>\<open>get\<close>\<close>

text \<open>
  \<open>node && node.value\<close>: a falsy \<open>node\<close> is returned as it is. The only falsy
  results of a lookup are \<open>undefined\<close> and a falsy stored value.
\<close>

definition get :: "'v view \<Rightarrow> 'v trie \<Rightarrow> string \<Rightarrow> 'v option" where
  "get J s query =
     (case table_lookup s query of
        Found node \<Rightarrow> val node
      | Stored v \<Rightarrow> if is_falsy J v then Some v else value_property J v
      | _ \<Rightarrow> None)"

subsection \<open>\<open>set\<close>\<close>

text \<open>
  The loop of lines 118 to 126 followed by the two assignments of lines 128 and
  129, on the node the loop stands at: \<open>cs\<close> is what is left of the key.
\<close>

fun set_loop :: "string \<Rightarrow> 'v \<Rightarrow> string \<Rightarrow> 'v node \<Rightarrow> 'v node" where
  "set_loop key v [] node = Node (Some key) (Some v) (socket node)"
| "set_loop key v (c # cs) node =
     Node (name node) (val node)
       (AList.update c
          (set_loop key v cs (case map_of (socket node) c of None \<Rightarrow> new_Node | Some child \<Rightarrow> child))
          (socket node))"

text \<open>
  Line 131, \<open>this.table[key] = node\<close>. For the key \<open>__proto__\<close> the assignment
  runs the setter inherited from \<open>Object.prototype\<close>: it creates no own
  property, and makes the node the prototype of the table. For every other
  key it creates the own property or overwrites it, and the node it refers to
  is in the tree.
\<close>

definition table_assign :: "string list \<Rightarrow> string \<Rightarrow> string list" where
  "table_assign t key =
     (if key = ''__proto__'' then t
      else if key \<in> set t then t
      else t @ [key])"

definition set_trie :: "'v trie \<Rightarrow> string \<Rightarrow> 'v \<Rightarrow> 'v trie" where
  "set_trie s key v =
     (if key = [] then s
      else \<lparr>rootSocket = socket (set_loop key v key (new_Node_socket (rootSocket s))),
            table = table_assign (table s) key,
            stale = (if key = ''__proto__'' then stale s else AList.delete key (stale s)),
            proto = (if key = ''__proto__'' then Some In_tree else proto s)\<rparr>)"

subsection \<open>\<open>reset\<close>\<close>

definition reset :: "'v trie \<Rightarrow> 'v trie" where
  "reset s = \<lparr>rootSocket = [], table = [], stale = [], proto = None\<rparr>"

subsection \<open>\<open>remove\<close>\<close>

text \<open>
  The loop of lines 157 to 169. \<open>pre\<close> is the path of \<open>node\<close> from the root,
  which stands for the reference kept in \<open>point.node\<close>. The result is \<open>None\<close>
  when the loop leaves the function at line 161, and the final \<open>point\<close>
  otherwise.
\<close>

fun remove_loop ::
  "'v node \<Rightarrow> string \<Rightarrow> string \<Rightarrow> (string \<times> char) option \<Rightarrow> (string \<times> char) option option" where
  "remove_loop node pre [] point = Some point"
| "remove_loop node pre (c # cs) point =
     (case map_of (socket node) c of
        None \<Rightarrow> None
      | Some child \<Rightarrow>
          remove_loop child (pre @ [c]) cs
            (if truthy (name node) \<or> 2 \<le> length (Object_keys (socket node))
             then Some (pre, c) else point))"

definition clear_terminal :: "'v node \<Rightarrow> 'v node" where
  "clear_terminal node = Node None None (socket node)"

definition delete_edge :: "char \<Rightarrow> 'v node \<Rightarrow> 'v node" where
  "delete_edge c node = Node (name node) (val node) (AList.delete c (socket node))"

definition set_value :: "'v option \<Rightarrow> 'v node \<Rightarrow> 'v node" where
  "set_value v node = Node (name node) v (socket node)"

text \<open>
  Lines 148 to 151, when \<open>end\<close> is a node: \<open>delete end.name\<close> and
  \<open>delete end.value\<close> on the node that the lookup found, where it is, and
  \<open>delete this.table[query]\<close>, which removes an own property and does nothing
  for a name that is not one. A stale node is written and then no longer
  referred to.
\<close>

definition forget :: "'v trie \<Rightarrow> string \<Rightarrow> 'v trie" where
  "forget s query =
     s\<lparr>table := removeAll query (table s), stale := AList.delete query (stale s)\<rparr>"

definition clear_found :: "'v trie \<Rightarrow> string \<Rightarrow> 'v trie" where
  "clear_found s query =
     (if query \<in> set (table s) then
        forget (s\<lparr>rootSocket :=
                   socket (modify_at clear_terminal query (new_Node_socket (rootSocket s)))\<rparr>)
          query
      else if map_of (stale s) query \<noteq> None then forget s query
      else
        (case proto s of
           Some In_tree \<Rightarrow>
             s\<lparr>rootSocket :=
                 socket (modify_at clear_terminal ''__proto__'' (new_Node_socket (rootSocket s)))\<rparr>
         | Some (Off_tree n) \<Rightarrow> s\<lparr>proto := Some (Off_tree (clear_terminal n))\<rparr>
         | None \<Rightarrow> s))"

text \<open>
  The same lines when \<open>end\<close> is the value stored in the node that is the
  prototype of the table: the two deletes are on that value, and the name
  looked up is not an own property. The value is taken to be stored under
  that one key only, so that no other node holds the object that is written.
\<close>

definition clear_stored :: "'v view \<Rightarrow> 'v trie \<Rightarrow> 'v \<Rightarrow> 'v trie" where
  "clear_stored J s v =
     (case proto s of
        Some In_tree \<Rightarrow>
          s\<lparr>rootSocket :=
              socket (modify_at (set_value (Some (without_name_value J v))) ''__proto__''
                        (new_Node_socket (rootSocket s)))\<rparr>
      | Some (Off_tree n) \<Rightarrow>
          s\<lparr>proto := Some (Off_tree (set_value (Some (without_name_value J v)) n))\<rparr>
      | None \<Rightarrow> s)"

text \<open>
  Line 176, \<open>delete point.node.socket[point.char]\<close>: the edge \<open>c\<close> of the node at
  \<open>pre\<close> is cut. The references of the table to nodes below the edge are from
  now on to nodes out of the tree.
\<close>

definition cut :: "'v trie \<Rightarrow> string \<Rightarrow> char \<Rightarrow> 'v trie" where
  "cut s pre c =
     \<lparr>rootSocket = socket (modify_at (delete_edge c) pre (new_Node_socket (rootSocket s))),
      table = filter (\<lambda>k. \<not> prefix (pre @ [c]) k) (table s),
      stale = stale s
        @ List.map_filter
            (\<lambda>k. if prefix (pre @ [c]) k
                 then map_option (Pair k) (walk (new_Node_socket (rootSocket s)) k)
                 else None)
            (table s),
      proto =
        (case proto s of
           Some In_tree \<Rightarrow>
             if prefix (pre @ [c]) ''__proto__''
             then (case walk (new_Node_socket (rootSocket s)) ''__proto__'' of
                     Some n \<Rightarrow> Some (Off_tree n)
                   | None \<Rightarrow> Some In_tree)
             else Some In_tree
         | r \<Rightarrow> r)\<rparr>"

text \<open>Lines 154 to 177, the pruning walk and what follows it.\<close>

definition prune :: "'v trie \<Rightarrow> string \<Rightarrow> error + 'v trie" where
  "prune s query =
     (case remove_loop (new_Node_socket (rootSocket s)) [] query None of
        None \<Rightarrow> Inr s
      | Some None \<Rightarrow> Inr (reset s)
      | Some (Some (pre, c)) \<Rightarrow> Inr (forget (cut s pre c) query))"

text \<open>
  \<open>remove\<close>. An inherited function passes the test of line 141 and has no
  \<open>socket\<close>: \<open>Object.keys(end.socket)\<close> throws.
\<close>

definition remove :: "'v view \<Rightarrow> 'v trie \<Rightarrow> string \<Rightarrow> error + 'v trie" where
  "remove J s query =
     (case table_lookup s query of
        Undefined \<Rightarrow> Inr s
      | Inherited \<Rightarrow> Inl TypeError
      | Detached \<Rightarrow> Inr s
      | Stored v \<Rightarrow>
          if is_falsy J v then Inr s
          else
            (case socket_keys J v of
               None \<Rightarrow> Inl TypeError
             | Some n \<Rightarrow> if n \<noteq> 0 then Inr (clear_stored J s v) else prune s query)
      | Found end \<Rightarrow>
          if length (Object_keys (socket end)) \<noteq> 0 then Inr (clear_found s query)
          else prune s query)"

subsection \<open>\<open>match\<close>\<close>

text \<open>
  The optional \<open>count\<close> is \<open>None\<close> when the caller gives none. The test of
  line 72, \<open>count && result.length >= count\<close>: the number \<open>0\<close> is falsy.
\<close>

definition count_reached :: "int option \<Rightarrow> 'a list \<Rightarrow> bool" where
  "count_reached cnt result =
     (case cnt of None \<Rightarrow> False | Some c \<Rightarrow> c \<noteq> 0 \<and> c \<le> int (length result))"

text \<open>The number of nodes of a subtree, the measure of the loop below.\<close>

fun nsize :: "'v node \<Rightarrow> nat" where
  "nsize (Node nm v cs) = Suc (sum_list (map (\<lambda>e. nsize (snd e)) cs))"

lemma mset_Object_entries: "mset (Object_entries cs) = mset cs"
  by (simp add: Object_entries_def)

lemma set_Object_entries: "set (Object_entries cs) = set cs"
  by (metis mset_Object_entries set_mset_mset)

lemma length_Object_entries: "length (Object_entries cs) = length cs"
  by (metis mset_Object_entries size_mset)

lemma length_Object_keys: "length (Object_keys cs) = length cs"
  by (simp add: Object_keys_def length_Object_entries)

lemma nsize_socket: "nsize node = Suc (sum_list (map (\<lambda>e. nsize (snd e)) (socket node)))"
  by (cases node) simp

lemma sum_list_Object_entries:
  fixes f :: "char \<times> 'a \<Rightarrow> nat"
  shows "sum_list (map f (Object_entries cs)) = sum_list (map f cs)"
proof -
  have "sum_mset (mset (map f (Object_entries cs))) = sum_mset (mset (map f cs))"
    unfolding mset_map mset_Object_entries ..
  thus ?thesis by (simp only: sum_mset_sum_list)
qed

text \<open>
  The \<open>while (true)\<close> loop of lines 71 to 98. \<open>points\<close> is the array used as a
  stack, its top (the end of the array) first. \<open>sockets[n]\<close> and
  \<open>node.socket[sockets[n]]\<close> are the two components of the \<open>n\<close>-th entry.
\<close>

function match_loop ::
  "int option \<Rightarrow> 'v node \<Rightarrow> 'v node list \<Rightarrow> 'v option list \<Rightarrow> 'v option list" where
  "match_loop cnt node points result =
     (if count_reached cnt result then result
      else
        (let result' = (if truthy (name node) then result @ [val node] else result) in
         case Object_entries (socket node) of
           [] \<Rightarrow> (case points of
                    [] \<Rightarrow> result'
                  | nxt # rest \<Rightarrow> match_loop cnt nxt rest result')
         | (c, child) # siblings \<Rightarrow>
             match_loop cnt child (rev (map snd siblings) @ points) result'))"
  by pat_completeness auto
termination
proof (relation "measure (\<lambda>(cnt, node, points, result). nsize node + sum_list (map nsize points))",
    goal_cases)
  case 1
  show ?case by simp
next
  case (2 cnt node points result r x xs)
  then show ?case by (simp add: nsize_socket[of node])
next
  case (3 cnt node points result r e es c child)
  have "sum_list (map (\<lambda>e. nsize (snd e)) (Object_entries (socket node)))
        = sum_list (map (\<lambda>e. nsize (snd e)) (socket node))"
    by (rule sum_list_Object_entries)
  moreover from 3 have "snd e = child" by auto
  ultimately have "nsize node = Suc (nsize child + sum_list (map (\<lambda>e. nsize (snd e)) es))"
    using 3 by (simp add: nsize_socket[of node])
  then show ?case by (simp add: rev_map[symmetric] comp_def)
qed

declare match_loop.simps [simp del]

definition match :: "'v trie \<Rightarrow> string \<Rightarrow> int option \<Rightarrow> 'v option list" where
  "match s query cnt =
     (if query = [] then []
      else case getClosestNode s query of
             None \<Rightarrow> []
           | Some closestNode \<Rightarrow> match_loop cnt closestNode [] [])"

section \<open>The order of a traversal\<close>

text \<open>
  The order in which the loop visits the children of a node: the first entry of
  \<open>Object.keys\<close> at once, the others after the whole subtree of the first, the
  last pushed first. \<open>collect\<close> is the traversal in that order, as a recursion
  over the tree.
\<close>

definition visit_order :: "(char \<times> 'a) list \<Rightarrow> (char \<times> 'a) list" where
  "visit_order cs = (case Object_entries cs of [] \<Rightarrow> [] | e # rest \<Rightarrow> e # rev rest)"

lemma set_visit_order: "set (visit_order cs) = set cs"
  unfolding visit_order_def using set_Object_entries[of cs]
  by (cases "Object_entries cs") auto

lemma nsize_child: "e \<in> set (socket node) \<Longrightarrow> nsize (snd e) < nsize node"
  unfolding nsize_socket[of node]
  by (induction "socket node" arbitrary: e) (auto simp: member_le_sum_list le_imp_less_Suc)

function collect :: "'v node \<Rightarrow> 'v option list" where
  "collect node =
     (if truthy (name node) then [val node] else [])
     @ concat (map (\<lambda>e. collect (snd e)) (visit_order (socket node)))"
  by pat_completeness auto
termination
  by (relation "measure nsize") (auto simp: set_visit_order nsize_child)

declare collect.simps [simp del]

text \<open>
  What one pass of the loop adds to \<open>result\<close>: the value of a node that has a
  truthy \<open>name\<close>.
\<close>

definition own :: "'v node \<Rightarrow> 'v option list" where
  "own node = (if truthy (name node) then [val node] else [])"

text \<open>
  The same traversal when the children are taken in the order of their
  insertion, which is how the specification words it.
\<close>

definition insertion_order :: "(char \<times> 'a) list \<Rightarrow> (char \<times> 'a) list" where
  "insertion_order cs = (case cs of [] \<Rightarrow> [] | e # rest \<Rightarrow> e # rev rest)"

lemma set_insertion_order: "set (insertion_order cs) = set cs"
  by (cases cs) (auto simp: insertion_order_def)

function collect_insertion_order :: "'v node \<Rightarrow> 'v option list" where
  "collect_insertion_order node =
     (if truthy (name node) then [val node] else [])
     @ concat (map (\<lambda>e. collect_insertion_order (snd e)) (insertion_order (socket node)))"
  by pat_completeness auto
termination
  by (relation "measure nsize") (auto simp: set_insertion_order nsize_child)

declare collect_insertion_order.simps [simp del]

fun no_index_edges :: "'v node \<Rightarrow> bool" where
  "no_index_edges (Node nm v cs) = (\<forall>e \<in> set cs. \<not> is_index (fst e) \<and> no_index_edges (snd e))"

section \<open>What a store holds\<close>

text \<open>
  The label and the value found at the end of a path. The stored keys of a
  subtree are the paths to its nodes with a truthy \<open>name\<close>.
\<close>

definition name_at :: "'v node \<Rightarrow> string \<Rightarrow> string option" where
  "name_at n p = (case walk n p of None \<Rightarrow> None | Some m \<Rightarrow> name m)"

definition value_at :: "'v node \<Rightarrow> string \<Rightarrow> 'v option" where
  "value_at n p = (case walk n p of None \<Rightarrow> None | Some m \<Rightarrow> val m)"

fun terminal_paths :: "'v node \<Rightarrow> string list" where
  "terminal_paths (Node nm v cs) =
     (if truthy nm then [[]] else [])
     @ concat (map (\<lambda>e. map ((#) (fst e)) (terminal_paths (snd e))) cs)"

text \<open>
  The invariant of a subtree whose root is reached by \<open>p\<close>: a child mapping has
  one entry per character, as a JavaScript object has; a node carries a label
  exactly when it carries a value, and the label is the path that leads to it;
  a node without children (but the root) is terminal, so that nothing dead is
  left in the tree.
\<close>

fun tinv :: "string \<Rightarrow> 'v node \<Rightarrow> bool" where
  "tinv p (Node nm v cs) =
     (distinct (map fst cs)
      \<and> (case nm of None \<Rightarrow> v = None | Some k \<Rightarrow> k = p \<and> p \<noteq> [] \<and> v \<noteq> None)
      \<and> (\<forall>e \<in> set cs. tinv (p @ [fst e]) (snd e)
            \<and> (socket (snd e) = [] \<longrightarrow> name (snd e) \<noteq> None)))"

text \<open>
  The invariant of a store: the tree is as above; the index has exactly one
  entry for each terminal node, under the path of that node, and none for a
  node out of the tree; and the table has the prototype it had from the start.
\<close>

definition store_inv :: "'v trie \<Rightarrow> bool" where
  "store_inv s = (tinv [] (new_Node_socket (rootSocket s))
           \<and> distinct (table s)
           \<and> set (table s) = set (terminal_paths (new_Node_socket (rootSocket s)))
           \<and> stale s = [] \<and> proto s = None)"

text \<open>
  A table that refers to no node out of the tree and has the prototype it had
  from the start.
\<close>

definition plain_index :: "'v trie \<Rightarrow> bool" where
  "plain_index s = (stale s = [] \<and> proto s = None)"

text \<open>A sequence of \<open>set\<close> calls, the first call first.\<close>

definition set_all :: "'v trie \<Rightarrow> (string \<times> 'v) list \<Rightarrow> 'v trie" where
  "set_all s kvs = foldl (\<lambda>s kv. set_trie s (fst kv) (snd kv)) s kvs"

text \<open>
  An anchor is a node that the pruning walk of \<open>remove\<close> records: one with a
  truthy \<open>name\<close> or with two children or more. \<open>no_anchor node cs\<close> holds when
  the path \<open>cs\<close> exists below \<open>node\<close> and none of its nodes but the last is an
  anchor.
\<close>

definition anchor :: "'v node \<Rightarrow> bool" where
  "anchor node = (truthy (name node) \<or> 2 \<le> length (Object_keys (socket node)))"

fun no_anchor :: "'v node \<Rightarrow> string \<Rightarrow> bool" where
  "no_anchor node [] = True"
| "no_anchor node (c # cs) =
     (\<not> anchor node
      \<and> (case map_of (socket node) c of None \<Rightarrow> False | Some child \<Rightarrow> no_anchor child cs))"

text \<open>
  The public operations, and a store after one of them. An exception thrown by
  \<open>remove\<close> leaves the store to the caller as it was.
\<close>

datatype 'v operation =
  Set string 'v | Remove string | Match string "int option" | Get string | Reset

fun perform :: "'v view \<Rightarrow> 'v trie \<Rightarrow> 'v operation \<Rightarrow> 'v trie" where
  "perform J s (Set key v) = set_trie s key v"
| "perform J s (Remove query) = (case remove J s query of Inl e \<Rightarrow> s | Inr s' \<Rightarrow> s')"
| "perform J s (Match query cnt) = s"
| "perform J s (Get query) = s"
| "perform J s Reset = reset s"

fun sets_proto :: "'v operation \<Rightarrow> bool" where
  "sets_proto (Set key v) = (key = ''__proto__'')"
| "sets_proto _ = False"

text \<open>
  The reachability invariant: every key of the index labels a complete path of
  child edges from the root.
\<close>

definition index_reachable :: "'v trie \<Rightarrow> bool" where
  "index_reachable s = (\<forall>k \<in> set (table s). deref s k \<noteq> None)"

text \<open>
  The references of the table that are represented by a path lead somewhere:
  the index is reachable, and so is the node of the key \<open>__proto__\<close> while it
  is the prototype of the table and in the tree.
\<close>

definition refs_ok :: "'v trie \<Rightarrow> bool" where
  "refs_ok s =
     (index_reachable s
      \<and> (proto s = Some In_tree \<longrightarrow> walk (new_Node_socket (rootSocket s)) ''__proto__'' \<noteq> None))"

text \<open>
  Stores used as examples, and the view of the natural numbers as JavaScript
  numbers: \<open>0\<close> is falsy, and a number has no properties of its own.
\<close>

definition numbers :: "nat view" where
  "numbers = \<lparr>is_falsy = (\<lambda>n. n = 0), value_property = (\<lambda>n. None),
              socket_keys = (\<lambda>n. None), without_name_value = (\<lambda>n. n)\<rparr>"

definition store_digit :: "nat trie" where
  "store_digit = set_trie (set_trie constructor ''xa'' 1) ''x1'' 2"

definition store_abc :: "nat trie" where
  "store_abc = set_trie (set_trie (set_trie constructor ''xa'' 1) ''xb'' 2) ''xc'' 3"

definition store_nested :: "nat trie" where
  "store_nested = set_trie (set_trie constructor ''ab'' 1) ''abc'' 2"

definition store_proto :: "nat trie" where
  "store_proto = set_trie (set_trie constructor ''__proto__'' 1) ''a'' 2"

definition store_proto_again :: "nat trie" where
  "store_proto_again =
     set_trie (perform numbers store_proto (Remove ''__proto__'')) ''__proto__x'' 3"

section \<open>The loop of \<open>match\<close> is the traversal\<close>

lemma collect_leaf:
  "Object_entries (socket node) = [] \<Longrightarrow> collect node = own node"
  by (subst collect.simps) (simp add: visit_order_def own_def)

lemma collect_inner:
  "Object_entries (socket node) = (c, child) # siblings \<Longrightarrow>
   collect node = own node @ collect child @ concat (map collect (rev (map snd siblings)))"
  by (subst collect.simps) (simp add: visit_order_def own_def rev_map comp_def)

lemma match_loop_stop:
  "count_reached cnt result \<Longrightarrow> match_loop cnt node points result = result"
  by (subst match_loop.simps) simp

lemma match_loop_done:
  "\<not> count_reached cnt result \<Longrightarrow> Object_entries (socket node) = [] \<Longrightarrow>
   match_loop cnt node [] result = result @ own node"
  by (subst match_loop.simps) (simp add: own_def)

lemma match_loop_pop:
  "\<not> count_reached cnt result \<Longrightarrow> Object_entries (socket node) = [] \<Longrightarrow>
   match_loop cnt node (nxt # rest) result = match_loop cnt nxt rest (result @ own node)"
  by (subst match_loop.simps) (simp add: own_def)

lemma match_loop_descend:
  "\<not> count_reached cnt result \<Longrightarrow> Object_entries (socket node) = (c, child) # siblings \<Longrightarrow>
   match_loop cnt node points result =
     match_loop cnt child (rev (map snd siblings) @ points) (result @ own node)"
  by (subst match_loop.simps) (simp add: own_def)

lemma own_if: "(if truthy (name node) then result @ [val node] else result) = result @ own node"
  by (simp add: own_def)

lemma match_loop_unlimited:
  "match_loop None node points result = result @ collect node @ concat (map collect points)"
proof (induction "None :: int option" node points result rule: match_loop.induct)
  case (1 node points result)
  have nc: "\<not> count_reached None result" for result :: "'a option list"
    by (simp add: count_reached_def)
  show ?case
  proof (cases "Object_entries (socket node)")
    case Nil
    show ?thesis
    proof (cases points)
      case Nil
      with \<open>Object_entries (socket node) = []\<close> show ?thesis
        by (simp add: match_loop_done[OF nc] collect_leaf)
    next
      case (Cons nxt rest)
      from 1(1)[OF nc refl \<open>Object_entries (socket node) = []\<close> Cons]
      have "match_loop None nxt rest (result @ own node)
            = (result @ own node) @ collect nxt @ concat (map collect rest)"
        unfolding own_if .
      then show ?thesis using Cons \<open>Object_entries (socket node) = []\<close>
        by (simp add: match_loop_pop[OF nc] collect_leaf)
    qed
  next
    case (Cons e siblings)
    obtain c child where e: "e = (c, child)" by (cases e)
    from 1(2)[OF nc refl Cons e[symmetric]]
    have "match_loop None child (rev (map snd siblings) @ points) (result @ own node)
          = (result @ own node) @ collect child
            @ concat (map collect (rev (map snd siblings) @ points))"
      unfolding own_if .
    then show ?thesis using Cons e
      by (simp add: match_loop_descend[OF nc] collect_inner)
  qed
qed

lemma length_own: "length (own node) \<le> 1"
  by (simp add: own_def)

lemma match_loop_limited:
  "0 < c \<Longrightarrow> match_loop (Some c) node points result =
     (if c \<le> int (length result) then result
      else take (nat c) (match_loop None node points result))"
proof (induction "Some c" node points result rule: match_loop.induct)
  case (1 node points result)
  show ?case
  proof (cases "c \<le> int (length result)")
    case True
    with 1(3) show ?thesis by (simp add: match_loop_stop count_reached_def)
  next
    case False
    then have nr: "\<not> count_reached (Some c) result" by (simp add: count_reached_def)
    have nc: "\<not> count_reached None result" by (simp add: count_reached_def)
    let ?r = "result @ own node"
    have len: "int (length ?r) \<le> c" using False length_own[of node] by simp
    have cut: "(if c \<le> int (length ?r) then ?r else take (nat c) (?r @ xs)) = take (nat c) (?r @ xs)"
      for xs using len by simp
    show ?thesis
    proof (cases "Object_entries (socket node)")
      case Nil
      show ?thesis
      proof (cases points)
        case Nil
        have "match_loop (Some c) node [] result = ?r"
          by (rule match_loop_done[OF nr \<open>Object_entries (socket node) = []\<close>])
        moreover have "match_loop None node [] result = ?r"
          by (rule match_loop_done[OF nc \<open>Object_entries (socket node) = []\<close>])
        ultimately show ?thesis using Nil False len by simp
      next
        case (Cons nxt rest)
        from 1(1)[OF nr refl \<open>Object_entries (socket node) = []\<close> Cons 1(3)]
        have "match_loop (Some c) nxt rest ?r
              = (if c \<le> int (length ?r) then ?r else take (nat c) (match_loop None nxt rest ?r))"
          unfolding own_if .
        also have "\<dots> = take (nat c) (match_loop None nxt rest ?r)"
          unfolding match_loop_unlimited[of nxt rest ?r] by (rule cut)
        finally show ?thesis using False
          unfolding Cons match_loop_pop[OF nr \<open>Object_entries (socket node) = []\<close>]
            match_loop_pop[OF nc \<open>Object_entries (socket node) = []\<close>]
          by simp
      qed
    next
      case (Cons e siblings)
      obtain ch child where e: "e = (ch, child)" by (cases e)
      have oe: "Object_entries (socket node) = (ch, child) # siblings" using Cons e by simp
      let ?pts = "rev (map snd siblings) @ points"
      from 1(2)[OF nr refl Cons e[symmetric] 1(3)]
      have "match_loop (Some c) child ?pts ?r
            = (if c \<le> int (length ?r) then ?r else take (nat c) (match_loop None child ?pts ?r))"
        unfolding own_if .
      also have "\<dots> = take (nat c) (match_loop None child ?pts ?r)"
        unfolding match_loop_unlimited[of child ?pts ?r] by (rule cut)
      finally show ?thesis using False
        unfolding match_loop_descend[OF nr oe] match_loop_descend[OF nc oe]
        by simp
    qed
  qed
qed

lemma match_loop_zero: "match_loop (Some 0) node points result = match_loop None node points result"
proof (induction "Some (0::int)" node points result rule: match_loop.induct)
  case (1 node points result)
  have nr: "\<not> count_reached (Some 0) result" by (simp add: count_reached_def)
  have nc: "\<not> count_reached None result" by (simp add: count_reached_def)
  show ?case
  proof (cases "Object_entries (socket node)")
    case Nil
    show ?thesis
    proof (cases points)
      case Nil
      show ?thesis unfolding Nil
        by (simp add: match_loop_done[OF nr \<open>Object_entries (socket node) = []\<close>]
            match_loop_done[OF nc \<open>Object_entries (socket node) = []\<close>])
    next
      case (Cons nxt rest)
      from 1(1)[OF nr refl \<open>Object_entries (socket node) = []\<close> Cons]
      show ?thesis unfolding Cons own_if
          match_loop_pop[OF nr \<open>Object_entries (socket node) = []\<close>]
          match_loop_pop[OF nc \<open>Object_entries (socket node) = []\<close>] .
    qed
  next
    case (Cons e siblings)
    obtain ch child where e: "e = (ch, child)" by (cases e)
    have oe: "Object_entries (socket node) = (ch, child) # siblings" using Cons e by simp
    from 1(2)[OF nr refl Cons e[symmetric]]
    show ?thesis unfolding own_if match_loop_descend[OF nr oe] match_loop_descend[OF nc oe] .
  qed
qed

lemma Object_entries_no_index:
  "\<forall>e \<in> set cs. \<not> is_index (fst e) \<Longrightarrow> Object_entries cs = cs"
  by (simp add: Object_entries_def filter_id_conv cong: filter_cong)

lemma no_index_edges_socket:
  "no_index_edges node = (\<forall>e \<in> set (socket node). \<not> is_index (fst e) \<and> no_index_edges (snd e))"
  by (cases node) simp

lemma collect_no_index:
  "no_index_edges node \<Longrightarrow> collect node = collect_insertion_order node"
proof (induction node rule: collect.induct)
  case (1 node)
  from 1(2) have ni: "\<forall>e \<in> set (socket node). \<not> is_index (fst e) \<and> no_index_edges (snd e)"
    by (subst (asm) no_index_edges_socket)
  then have vo: "visit_order (socket node) = insertion_order (socket node)"
    by (simp add: visit_order_def insertion_order_def Object_entries_no_index)
  have "map (\<lambda>e. collect (snd e)) (visit_order (socket node))
        = map (\<lambda>e. collect_insertion_order (snd e)) (visit_order (socket node))"
    using 1(1) ni by (intro map_cong refl) (auto simp: set_visit_order)
  then have "concat (map (\<lambda>e. collect (snd e)) (visit_order (socket node)))
        = concat (map (\<lambda>e. collect_insertion_order (snd e)) (insertion_order (socket node)))"
    by (simp only: vo)
  then show ?case
    by (subst collect.simps, subst collect_insertion_order.simps) (simp only:)
qed

lemma collect_Node:
  "collect (Node nm v cs) =
     (if truthy nm then [v] else []) @ concat (map (\<lambda>e. collect (snd e)) (visit_order cs))"
  by (subst collect.simps) simp

lemma collect_insertion_order_Node:
  "collect_insertion_order (Node nm v cs) =
     (if truthy nm then [v] else [])
     @ concat (map (\<lambda>e. collect_insertion_order (snd e)) (insertion_order cs))"
  by (subst collect_insertion_order.simps) simp

section \<open>Facts about paths, the invariant and \<open>set\<close>\<close>

lemma walk_Cons: "walk n (c # cs) = (case map_of (socket n) c of None \<Rightarrow> None | Some ch \<Rightarrow> walk ch cs)"
  by simp

lemma name_at_Nil [simp]: "name_at n [] = name n" by (simp add: name_at_def)
lemma value_at_Nil [simp]: "value_at n [] = val n" by (simp add: value_at_def)
lemma name_at_Cons: "name_at n (c # cs) = (case map_of (socket n) c of None \<Rightarrow> None | Some ch \<Rightarrow> name_at ch cs)"
  by (simp add: name_at_def split: option.split)
lemma value_at_Cons: "value_at n (c # cs) = (case map_of (socket n) c of None \<Rightarrow> None | Some ch \<Rightarrow> value_at ch cs)"
  by (simp add: value_at_def split: option.split)

lemma name_at_new_Node [simp]: "name_at new_Node p = None"
  by (cases p) (simp_all add: name_at_Cons new_Node_def)
lemma value_at_new_Node [simp]: "value_at new_Node p = None"
  by (cases p) (simp_all add: value_at_Cons new_Node_def)

lemma name_at_set_loop:
  "name_at (set_loop key v cs n) p = (if p = cs then Some key else name_at n p)"
proof (induction cs arbitrary: n p)
  case Nil
  then show ?case by (cases p) (simp_all add: name_at_Cons)
next
  case (Cons c cs)
  show ?case
  proof (cases p)
    case Nil
    then show ?thesis by simp
  next
    case (Cons d p')
    then show ?thesis using Cons.IH
      by (auto simp: name_at_Cons update_conv' split: option.split)
  qed
qed

lemma value_at_set_loop:
  "value_at (set_loop key v cs n) p = (if p = cs then Some v else value_at n p)"
proof (induction cs arbitrary: n p)
  case Nil
  then show ?case by (cases p) (simp_all add: value_at_Cons)
next
  case (Cons c cs)
  show ?case
  proof (cases p)
    case Nil
    then show ?thesis by simp
  next
    case (Cons d p')
    then show ?thesis using Cons.IH
      by (auto simp: value_at_Cons update_conv' split: option.split)
  qed
qed

lemma tinv_socket:
  "tinv p n = (distinct (map fst (socket n))
      \<and> (case name n of None \<Rightarrow> val n = None | Some k \<Rightarrow> k = p \<and> p \<noteq> [] \<and> val n \<noteq> None)
      \<and> (\<forall>e \<in> set (socket n). tinv (p @ [fst e]) (snd e)
            \<and> (socket (snd e) = [] \<longrightarrow> name (snd e) \<noteq> None)))"
  by (cases n) (simp split: option.split)

lemma terminal_paths_socket:
  "terminal_paths n = (if truthy (name n) then [[]] else [])
     @ concat (map (\<lambda>e. map ((#) (fst e)) (terminal_paths (snd e))) (socket n))"
  by (cases n) simp

lemma in_terminal_paths_Nil: "[] \<in> set (terminal_paths n) \<longleftrightarrow> truthy (name n)"
  by (cases n) auto

lemma in_terminal_paths_Cons:
  "(c # p) \<in> set (terminal_paths n) \<longleftrightarrow>
     (\<exists>e \<in> set (socket n). fst e = c \<and> p \<in> set (terminal_paths (snd e)))"
  by (cases n) auto

lemma tinv_child:
  "tinv pfx n \<Longrightarrow> map_of (socket n) c = Some ch \<Longrightarrow> tinv (pfx @ [c]) ch"
  by (subst (asm) tinv_socket) (auto dest!: map_of_SomeD)

lemma tinv_distinct: "tinv pfx n \<Longrightarrow> distinct (map fst (socket n))"
  by (subst (asm) tinv_socket) simp

lemma distinct_entry:
  "distinct (map fst cs) \<Longrightarrow> e \<in> set cs \<Longrightarrow> map_of cs (fst e) = Some (snd e)"
  by (cases e) simp

lemma terminal_paths_iff:
  "tinv pfx n \<Longrightarrow> p \<in> set (terminal_paths n) \<longleftrightarrow> truthy (name_at n p)"
proof (induction p arbitrary: n pfx)
  case Nil
  then show ?case by (simp add: in_terminal_paths_Nil)
next
  case (Cons c p)
  have d: "distinct (map fst (socket n))" using Cons.prems by (rule tinv_distinct)
  show ?case
  proof (cases "map_of (socket n) c")
    case None
    then have "c \<notin> fst ` set (socket n)" by (simp add: map_of_eq_None_iff)
    then have "\<not> (\<exists>e \<in> set (socket n). fst e = c \<and> p \<in> set (terminal_paths (snd e)))"
      by blast
    with None show ?thesis by (simp add: name_at_Cons in_terminal_paths_Cons)
  next
    case (Some child)
    then have mem: "(c, child) \<in> set (socket n)" by (rule map_of_SomeD)
    have uniq: "snd e = child" if "e \<in> set (socket n)" "fst e = c" for e
      using distinct_entry[OF d that(1)] that(2) Some by simp
    have ih: "p \<in> set (terminal_paths child) \<longleftrightarrow> truthy (name_at child p)"
      by (rule Cons.IH[OF tinv_child[OF Cons.prems Some]])
    have "(\<exists>e \<in> set (socket n). fst e = c \<and> p \<in> set (terminal_paths (snd e)))
          \<longleftrightarrow> p \<in> set (terminal_paths child)"
    proof
      assume "\<exists>e \<in> set (socket n). fst e = c \<and> p \<in> set (terminal_paths (snd e))"
      then obtain e where "e \<in> set (socket n)" "fst e = c" "p \<in> set (terminal_paths (snd e))"
        by blast
      then show "p \<in> set (terminal_paths child)" using uniq by simp
    next
      assume "p \<in> set (terminal_paths child)"
      then show "\<exists>e \<in> set (socket n). fst e = c \<and> p \<in> set (terminal_paths (snd e))"
        using mem by (intro bexI[of _ "(c, child)"]) simp_all
    qed
    then have "(c # p) \<in> set (terminal_paths n) \<longleftrightarrow> p \<in> set (terminal_paths child)"
      by (simp only: in_terminal_paths_Cons)
    then show ?thesis using ih Some by (simp add: name_at_Cons)
  qed
qed

lemma in_set_update:
  "distinct (map fst al) \<Longrightarrow> e \<in> set (AList.update k v al) \<Longrightarrow>
   e = (k, v) \<or> (e \<in> set al \<and> fst e \<noteq> k)"
  by (induction al) (auto split: if_splits)

lemma update_not_Nil: "AList.update k v al \<noteq> []"
  by (cases al) auto

lemma set_loop_leaf:
  "socket (set_loop key v cs n) = [] \<Longrightarrow> name (set_loop key v cs n) \<noteq> None"
  by (cases cs) (simp_all add: update_not_Nil)

lemma tinv_new_Node: "tinv p new_Node"
  by (simp add: new_Node_def)

lemma tinv_leaf_ok:
  "tinv pfx n \<Longrightarrow> e \<in> set (socket n) \<Longrightarrow> socket (snd e) = [] \<Longrightarrow> name (snd e) \<noteq> None"
  by (subst (asm) tinv_socket) simp

lemma tinv_entry:
  "tinv pfx n \<Longrightarrow> e \<in> set (socket n) \<Longrightarrow> tinv (pfx @ [fst e]) (snd e)"
  by (subst (asm) tinv_socket) simp

lemma tinv_label:
  "tinv pfx n \<Longrightarrow> (case name n of None \<Rightarrow> val n = None | Some k \<Rightarrow> k = pfx \<and> pfx \<noteq> [] \<and> val n \<noteq> None)"
  by (subst (asm) tinv_socket) simp

lemma tinvI:
  "distinct (map fst (socket n)) \<Longrightarrow>
   (case name n of None \<Rightarrow> val n = None | Some k \<Rightarrow> k = pfx \<and> pfx \<noteq> [] \<and> val n \<noteq> None) \<Longrightarrow>
   (\<And>e. e \<in> set (socket n) \<Longrightarrow> tinv (pfx @ [fst e]) (snd e)) \<Longrightarrow>
   (\<And>e. e \<in> set (socket n) \<Longrightarrow> socket (snd e) = [] \<Longrightarrow> name (snd e) \<noteq> None) \<Longrightarrow>
   tinv pfx n"
  by (subst tinv_socket) simp

lemma tinv_set_loop:
  "tinv pfx n \<Longrightarrow> key = pfx @ cs \<Longrightarrow> key \<noteq> [] \<Longrightarrow> tinv pfx (set_loop key v cs n)"
proof (induction cs arbitrary: n pfx)
  case Nil
  show ?case
  proof (rule tinvI)
    show "distinct (map fst (socket (set_loop key v [] n)))"
      using tinv_distinct[OF Nil.prems(1)] by simp
    show "case name (set_loop key v [] n) of None \<Rightarrow> val (set_loop key v [] n) = None
          | Some k \<Rightarrow> k = pfx \<and> pfx \<noteq> [] \<and> val (set_loop key v [] n) \<noteq> None"
      using Nil.prems by simp
    show "tinv (pfx @ [fst e]) (snd e)" if "e \<in> set (socket (set_loop key v [] n))" for e
      using that tinv_entry[OF Nil.prems(1)] by simp
    show "name (snd e) \<noteq> None"
      if "e \<in> set (socket (set_loop key v [] n))" "socket (snd e) = []" for e
      using that tinv_leaf_ok[OF Nil.prems(1)] by simp
  qed
next
  case (Cons c cs)
  let ?old = "case map_of (socket n) c of None \<Rightarrow> new_Node | Some child \<Rightarrow> child"
  let ?new = "set_loop key v cs ?old"
  have sock: "socket (set_loop key v (c # cs) n) = AList.update c ?new (socket n)" by simp
  have t0: "tinv (pfx @ [c]) ?old"
  proof (cases "map_of (socket n) c")
    case None
    then show ?thesis by (simp add: tinv_new_Node)
  next
    case (Some ch)
    then show ?thesis using tinv_child[OF Cons.prems(1) Some] by simp
  qed
  note dn = tinv_distinct[OF Cons.prems(1)]
  have tc: "tinv (pfx @ [c]) ?new"
    by (rule Cons.IH[OF t0]) (use Cons.prems in simp_all)
  show ?case
  proof (rule tinvI)
    show "distinct (map fst (socket (set_loop key v (c # cs) n)))"
      unfolding sock using tinv_distinct[OF Cons.prems(1)] by (simp add: distinct_update)
    show "case name (set_loop key v (c # cs) n) of
            None \<Rightarrow> val (set_loop key v (c # cs) n) = None
          | Some k \<Rightarrow> k = pfx \<and> pfx \<noteq> [] \<and> val (set_loop key v (c # cs) n) \<noteq> None"
      using tinv_label[OF Cons.prems(1)] by (simp split: option.splits)
    show "tinv (pfx @ [fst e]) (snd e)" if "e \<in> set (socket (set_loop key v (c # cs) n))" for e
      using in_set_update[OF dn that[unfolded sock]] tc tinv_entry[OF Cons.prems(1)] by auto
    show "name (snd e) \<noteq> None"
      if "e \<in> set (socket (set_loop key v (c # cs) n))" "socket (snd e) = []" for e
    proof -
      from in_set_update[OF dn that(1)[unfolded sock]]
      consider "e = (c, ?new)" | "e \<in> set (socket n)" by blast
      then show ?thesis
      proof cases
        case 1
        with that(2) set_loop_leaf[of key v cs ?old] show ?thesis by simp
      next
        case 2
        then show ?thesis using that(2) by (rule tinv_leaf_ok[OF Cons.prems(1)])
      qed
    qed
  qed
qed

lemma table_lookup_plain:
  "plain_index s \<Longrightarrow>
   table_lookup s k =
     (if k \<in> set (table s) then
        (case deref s k of Some n \<Rightarrow> Found n | None \<Rightarrow> Detached)
      else if k \<in> set Object_prototype_names then Inherited
      else Undefined)"
  by (simp add: table_lookup_def plain_index_def)

lemma get_eq:
  "plain_index s \<Longrightarrow>
   get J s k = (if k \<in> set (table s) then value_at (new_Node_socket (rootSocket s)) k else None)"
  by (simp add: get_def table_lookup_plain deref_def value_at_def split: option.split)

lemma store_inv_plain: "store_inv s \<Longrightarrow> plain_index s"
  by (simp add: store_inv_def plain_index_def)

lemma plain_index_set_trie:
  "plain_index s \<Longrightarrow> key \<noteq> ''__proto__'' \<Longrightarrow> plain_index (set_trie s key v)"
  by (simp add: plain_index_def set_trie_def)

lemma root_set_loop:
  "key \<noteq> [] \<Longrightarrow>
   new_Node_socket (socket (set_loop key v key (new_Node_socket rs)))
     = set_loop key v key (new_Node_socket rs)"
  by (cases key) (simp_all add: new_Node_socket_def)

lemma set_table_assign:
  "key \<noteq> ''__proto__'' \<Longrightarrow> set (table_assign t key) = insert key (set t)"
  by (auto simp: table_assign_def)

lemma distinct_table_assign: "distinct t \<Longrightarrow> distinct (table_assign t key)"
  by (simp add: table_assign_def)

lemma get_set_trie:
  assumes "plain_index s" "key \<noteq> []" "key \<noteq> ''__proto__''"
  shows "get J (set_trie s key v) k = (if k = key then Some v else get J s k)"
  unfolding get_eq[OF assms(1)] get_eq[OF plain_index_set_trie[OF assms(1,3)]]
  using assms(2,3) by (simp add: set_trie_def root_set_loop value_at_set_loop set_table_assign)

lemma store_inv_set_trie:
  assumes "store_inv s" "key \<noteq> ''__proto__''"
  shows "store_inv (set_trie s key v)"
proof (cases "key = []")
  case True
  with assms show ?thesis by (simp add: set_trie_def)
next
  case False
  let ?r = "new_Node_socket (rootSocket s)"
  let ?r' = "set_loop key v key ?r"
  from assms(1) have t: "tinv [] ?r" and d: "distinct (table s)"
    and tp: "set (table s) = set (terminal_paths ?r)" by (simp_all add: store_inv_def)
  have t': "tinv [] ?r'" by (rule tinv_set_loop[OF t]) (use False in simp_all)
  have "p \<in> set (terminal_paths ?r') \<longleftrightarrow> p = key \<or> p \<in> set (terminal_paths ?r)" for p
    using False by (simp add: terminal_paths_iff[OF t'] terminal_paths_iff[OF t] name_at_set_loop)
  then have "set (terminal_paths ?r') = insert key (set (table s))"
    unfolding tp by blast
  with t' d assms False show ?thesis
    by (simp add: store_inv_def set_trie_def root_set_loop set_table_assign distinct_table_assign)
qed

lemma store_inv_constructor: "store_inv constructor"
  by (simp add: store_inv_def constructor_def new_Node_socket_def)

lemma distinct_concat_children:
  "distinct (map fst cs) \<Longrightarrow> (\<And>e. e \<in> set cs \<Longrightarrow> distinct (f (snd e))) \<Longrightarrow>
   distinct (concat (map (\<lambda>e. map ((#) (fst e)) (f (snd e))) cs))"
proof (induction cs)
  case Nil
  show ?case by simp
next
  case (Cons a cs)
  have 1: "distinct (map ((#) (fst a)) (f (snd a)))"
    using Cons.prems(2)[of a] by (simp add: distinct_map)
  have 2: "distinct (concat (map (\<lambda>e. map ((#) (fst e)) (f (snd e))) cs))"
    using Cons.prems by (intro Cons.IH) simp_all
  have 3: "set (map ((#) (fst a)) (f (snd a)))
           \<inter> set (concat (map (\<lambda>e. map ((#) (fst e)) (f (snd e))) cs)) = {}"
    using Cons.prems(1) by auto
  from 1 2 3 show ?case by simp
qed

lemma distinct_terminal_paths: "tinv pfx n \<Longrightarrow> distinct (terminal_paths n)"
proof (induction n arbitrary: pfx)
  case (Node nm v cs)
  have d: "distinct (map fst cs)" using Node.prems by simp
  have "distinct (terminal_paths (snd e))" if "e \<in> set cs" for e
  proof -
    obtain c ch where e: "e = (c, ch)" by (cases e)
    have "tinv (pfx @ [c]) ch" using Node.prems that e by auto
    from Node.IH[OF that[unfolded e] _ this] show ?thesis using e by simp
  qed
  then have "distinct (concat (map (\<lambda>e. map ((#) (fst e)) (terminal_paths (snd e))) cs))"
    by (intro distinct_concat_children[where f = terminal_paths] d)
  then show ?case by auto
qed

lemma walk_append:
  "walk n (p @ r) = (case walk n p of None \<Rightarrow> None | Some m \<Rightarrow> walk m r)"
  by (induction p arbitrary: n) (simp_all split: option.split)

lemma name_at_append:
  "walk n p = Some m \<Longrightarrow> name_at n (p @ r) = name_at m r"
  by (simp add: name_at_def walk_append)

lemma value_at_append:
  "walk n p = Some m \<Longrightarrow> value_at n (p @ r) = value_at m r"
  by (simp add: value_at_def walk_append)

lemma tinv_walk: "tinv pfx n \<Longrightarrow> walk n p = Some m \<Longrightarrow> tinv (pfx @ p) m"
proof (induction p arbitrary: n pfx)
  case Nil
  then show ?case by simp
next
  case (Cons c p)
  from Cons.prems(2) obtain ch where ch: "map_of (socket n) c = Some ch" "walk ch p = Some m"
    by (auto split: option.splits)
  from Cons.IH[OF tinv_child[OF Cons.prems(1) ch(1)] ch(2)] show ?case by simp
qed

lemma mset_concat_map_perm:
  "mset xs = mset ys \<Longrightarrow> mset (concat (map f xs)) = mset (concat (map f ys))"
proof -
  assume eq: "mset xs = mset ys"
  have "mset (concat (map f zs)) = sum_mset (image_mset (\<lambda>e. mset (f e)) (mset zs))" for zs
    by (induction zs) simp_all
  with eq show ?thesis by simp
qed

lemma mset_visit_order: "mset (visit_order cs) = mset cs"
proof (cases "Object_entries cs")
  case Nil
  then show ?thesis using mset_Object_entries[of cs] by (simp add: visit_order_def)
next
  case (Cons e rest)
  then have "mset (visit_order cs) = mset (Object_entries cs)" by (simp add: visit_order_def)
  then show ?thesis by (simp add: mset_Object_entries)
qed

lemma sum_list_image_mset_concat:
  "sum_list (map (\<lambda>e. image_mset g (mset (h e))) cs) = image_mset g (mset (concat (map h cs)))"
  by (induction cs) simp_all

lemma mset_collect:
  "tinv pfx n \<Longrightarrow> mset (collect n) = image_mset (value_at n) (mset (terminal_paths n))"
proof (induction n arbitrary: pfx)
  case (Node nm v cs)
  let ?n = "Node nm v cs"
  have d: "distinct (map fst cs)" using Node.prems by simp
  have child: "mset (collect (snd e))
               = image_mset (value_at ?n) (mset (map ((#) (fst e)) (terminal_paths (snd e))))"
    if "e \<in> set cs" for e
  proof -
    obtain c ch where e: "e = (c, ch)" by (cases e)
    have t: "tinv (pfx @ [c]) ch" using Node.prems that e by auto
    have m: "map_of cs c = Some ch" using d that e by simp
    have "mset (collect ch) = image_mset (value_at ch) (mset (terminal_paths ch))"
      using Node.IH[OF that[unfolded e] _ t] by simp
    also have "\<dots> = image_mset (\<lambda>p. value_at ?n (c # p)) (mset (terminal_paths ch))"
      using m by (simp add: value_at_Cons)
    finally show ?thesis using e by (simp add: image_mset.compositionality comp_def)
  qed
  have "mset (concat (map (\<lambda>e. collect (snd e)) (visit_order cs)))
        = mset (concat (map (\<lambda>e. collect (snd e)) cs))"
    by (rule mset_concat_map_perm) (rule mset_visit_order)
  also have "\<dots> = sum_list (map (\<lambda>e. mset (collect (snd e))) cs)"
    by (simp add: mset_concat comp_def)
  also have "\<dots> = sum_list (map (\<lambda>e. image_mset (value_at ?n)
                      (mset (map ((#) (fst e)) (terminal_paths (snd e))))) cs)"
    using child by (intro arg_cong[where f=sum_list] map_cong refl)
  also have "\<dots> = image_mset (value_at ?n)
                      (mset (concat (map (\<lambda>e. map ((#) (fst e)) (terminal_paths (snd e))) cs)))"
    by (rule sum_list_image_mset_concat)
  finally show ?case
    by (simp add: collect_Node)
qed

section \<open>Results of \<open>match\<close>\<close>

lemma store_digit_eq:
  "store_digit =
     \<lparr>rootSocket =
        [(CHR ''x'', Node None None
           [(CHR ''a'', Node (Some ''xa'') (Some 1) []),
            (CHR ''1'', Node (Some ''x1'') (Some 2) [])])],
      table = [''xa'', ''x1''], stale = [], proto = None\<rparr>"
  by (simp add: store_digit_def set_trie_def constructor_def new_Node_socket_def new_Node_def
      table_assign_def)

lemma store_abc_eq:
  "store_abc =
     \<lparr>rootSocket =
        [(CHR ''x'', Node None None
           [(CHR ''a'', Node (Some ''xa'') (Some 1) []),
            (CHR ''b'', Node (Some ''xb'') (Some 2) []),
            (CHR ''c'', Node (Some ''xc'') (Some 3) [])])],
      table = [''xa'', ''xb'', ''xc''], stale = [], proto = None\<rparr>"
  by (simp add: store_abc_def set_trie_def constructor_def new_Node_socket_def new_Node_def
      table_assign_def)

lemmas match_eval = match_def getClosestNode_def new_Node_socket_def new_Node_def
  match_loop_unlimited collect_Node collect_insertion_order_Node visit_order_def
  insertion_order_def Object_entries_def is_index_def

lemma match_unlimited:
  "match s q None =
     (if q = [] then []
      else case getClosestNode s q of None \<Rightarrow> [] | Some n \<Rightarrow> collect n)"
  by (simp add: match_def match_loop_unlimited split: option.split)

lemma match_limited:
  "match s q (Some c) = (if c = 0 then match s q None else take (nat c) (match s q None))"
proof -
  consider "c = 0" | "0 < c" | "c < 0" by linarith
  then show ?thesis
  proof cases
    case 1
    then show ?thesis by (simp add: match_def match_loop_zero split: option.split)
  next
    case 2
    then show ?thesis by (simp add: match_def match_loop_limited split: option.split)
  next
    case 3
    then have "count_reached (Some c) ([] :: 'a option list)" by (simp add: count_reached_def)
    then have "match_loop (Some c) n [] ([] :: 'a option list) = []" for n
      by (rule match_loop_stop)
    with 3 show ?thesis by (simp add: match_def split: option.split)
  qed
qed

text \<open>
  Claim C5, as the code has it. The limit \<open>0\<close> is no limit: \<open>match(query, 0)\<close>
  returns all that \<open>match(query)\<close> returns. For every other limit the result is
  the initial segment of the unlimited result of that length (empty for a
  negative limit), so a positive limit bounds the number of values returned;
  and a pass of the loop that finds the limit reached returns \<open>result\<close> as it
  is, visiting nothing more.
\<close>

theorem match_limit_initial_segment:
  "match s q (Some c) = (if c = 0 then match s q None else take (nat c) (match s q None))
   \<and> (0 < c \<longrightarrow> int (length (match s q (Some c))) \<le> c)
   \<and> (c \<noteq> 0 \<and> c \<le> int (length result) \<longrightarrow>
        match_loop (Some c) node points result = result)"
proof (intro conjI impI)
  show "match s q (Some c) = (if c = 0 then match s q None else take (nat c) (match s q None))"
    by (rule match_limited)
  show "int (length (match s q (Some c))) \<le> c" if "0 < c"
    using that by (simp add: match_limited)
  show "match_loop (Some c) node points result = result" if "c \<noteq> 0 \<and> c \<le> int (length result)"
    using that by (intro match_loop_stop) (simp add: count_reached_def)
qed

theorem match_limit_initial_segment_witness:
  "match store_abc ''x'' (Some 2) = [Some 1, Some 3]
   \<and> int (length (match store_abc ''x'' (Some 2))) \<le> 2
   \<and> match_loop (Some 2) (new_Node :: nat node) [] [Some 1, Some 3] = [Some 1, Some 3]"
proof -
  have all: "match store_abc ''x'' None = [Some 1, Some 3, Some 2]"
    by (simp add: store_abc_eq match_eval)
  show ?thesis
    using match_limit_initial_segment[of store_abc "''x''" 2 "[Some 1, Some 3] :: nat option list"
        "new_Node :: nat node" "[]"]
    by (simp add: all)
qed

text \<open>
  Claim C5 as it is stated fails at the limit \<open>0\<close>: one value is returned,
  which is more than the limit.
\<close>

theorem match_limit_zero_counterexample:
  "\<not> int (length (match (set_trie constructor ''a'' (1::nat)) ''a'' (Some 0))) \<le> 0"
proof -
  have "match (set_trie constructor ''a'' (1::nat)) ''a'' None = [Some 1]"
    by (simp add: match_eval set_trie_def constructor_def)
  then show ?thesis by (simp add: match_limited)
qed

text \<open>
  Claim C7, as the code has it. The result of \<open>match\<close> without a limit is the
  traversal \<open>collect\<close> of the node the query leads to: the value of the node,
  then the subtree of the first child, then the subtrees of the other children
  from the last to the second, where the children are taken in the order of
  \<open>Object.keys\<close>: the edges labelled by a digit first, in ascending order, then
  the others in the order of their insertion. Below a node none of whose
  descendants hangs on a digit this is the order of insertion.
\<close>

theorem match_is_collect:
  "match s q None =
     (if q = [] then []
      else case getClosestNode s q of None \<Rightarrow> [] | Some n \<Rightarrow> collect n)
   \<and> (no_index_edges node \<longrightarrow> collect node = collect_insertion_order node)"
  using match_unlimited collect_no_index by blast

theorem match_is_collect_witness:
  "match store_abc ''x'' None = [Some 1, Some 3, Some 2]
   \<and> collect_insertion_order
        (Node None None [(CHR ''a'', Node (Some ''xa'') (Some (1::nat)) []),
                         (CHR ''b'', Node (Some ''xb'') (Some 2) []),
                         (CHR ''c'', Node (Some ''xc'') (Some 3) [])])
      = [Some 1, Some 3, Some 2]"
proof -
  let ?n = "Node None None [(CHR ''a'', Node (Some ''xa'') (Some (1::nat)) []),
                         (CHR ''b'', Node (Some ''xb'') (Some 2) []),
                         (CHR ''c'', Node (Some ''xc'') (Some 3) [])]"
  have g: "getClosestNode store_abc ''x'' = Some ?n"
    by (simp add: store_abc_eq getClosestNode_def new_Node_socket_def)
  have ni: "no_index_edges ?n" by (simp add: is_index_def)
  have c: "collect ?n = [Some 1, Some 3, Some 2]" by (simp add: match_eval)
  show ?thesis
    using match_is_collect[of store_abc "''x''" ?n] g ni c by simp
qed

text \<open>
  Claim C7 as it is stated, with the children in the order of their insertion,
  fails when an edge is labelled by a digit: \<open>xa\<close> was set before \<open>x1\<close>, and
  \<open>match\<close> returns the value of \<open>x1\<close> first.
\<close>

theorem match_order_counterexample:
  "match store_digit ''x'' None = [Some 2, Some 1]
   \<and> (case getClosestNode store_digit ''x'' of
         None \<Rightarrow> [] | Some n \<Rightarrow> collect_insertion_order n) = [Some 1, Some 2]"
  by (simp add: store_digit_eq match_eval)

section \<open>Prefix search\<close>

lemma match_prefix_mset:
  assumes "store_inv s" "q \<noteq> []"
  shows "mset (match s q None) = image_mset (get J s) (mset (filter (prefix q) (table s)))"
proof -
  let ?r = "new_Node_socket (rootSocket s)"
  from assms(1) have t: "tinv [] ?r" and d: "distinct (table s)"
    and tp: "set (table s) = set (terminal_paths ?r)" by (simp_all add: store_inv_def)
  have in_table: "k \<in> set (table s) \<longleftrightarrow> truthy (name_at ?r k)" for k
    unfolding tp by (rule terminal_paths_iff[OF t])
  show ?thesis
  proof (cases "walk ?r q")
    case None
    have "\<not> prefix q k" if "k \<in> set (table s)" for k
    proof
      assume "prefix q k"
      then obtain r where "k = q @ r" by (auto simp: prefix_def)
      with None have "name_at ?r k = None" by (simp add: name_at_def walk_append)
      with that show False by (simp add: in_table)
    qed
    then have "filter (prefix q) (table s) = []" by (simp add: filter_empty_conv)
    with None assms(2) show ?thesis by (simp add: match_unlimited getClosestNode_def)
  next
    case (Some n)
    have tn: "tinv q n" using tinv_walk[OF t Some] by simp
    have m: "match s q None = collect n"
      using Some assms(2) by (simp add: match_unlimited getClosestNode_def)
    have "set (filter (prefix q) (table s)) = set (map ((@) q) (terminal_paths n))"
    proof (intro set_eqI iffI)
      fix k assume "k \<in> set (filter (prefix q) (table s))"
      then obtain r where k: "k = q @ r" and "truthy (name_at ?r k)"
        by (auto simp: prefix_def in_table)
      then have "truthy (name_at n r)" by (simp add: name_at_append[OF Some])
      then show "k \<in> set (map ((@) q) (terminal_paths n))"
        using k by (simp add: terminal_paths_iff[OF tn])
    next
      fix k assume "k \<in> set (map ((@) q) (terminal_paths n))"
      then obtain r where k: "k = q @ r" and "truthy (name_at n r)"
        by (auto simp: terminal_paths_iff[OF tn])
      then show "k \<in> set (filter (prefix q) (table s))"
        by (simp add: in_table name_at_append[OF Some])
    qed
    moreover have "distinct (filter (prefix q) (table s))" using d by simp
    moreover have "distinct (map ((@) q) (terminal_paths n))"
      using distinct_terminal_paths[OF tn] by (simp add: distinct_map inj_on_def)
    ultimately have "mset (filter (prefix q) (table s)) = mset (map ((@) q) (terminal_paths n))"
      by (rule set_eq_iff_mset_eq_distinct[THEN iffD1, rotated 2])
    then have "image_mset (get J s) (mset (filter (prefix q) (table s)))
               = image_mset (\<lambda>r. get J s (q @ r)) (mset (terminal_paths n))"
      by (simp add: image_mset.compositionality comp_def)
    also have "\<dots> = image_mset (value_at n) (mset (terminal_paths n))"
    proof (rule image_mset_cong)
      fix r assume "r \<in># mset (terminal_paths n)"
      then have "truthy (name_at n r)" by (simp add: terminal_paths_iff[OF tn])
      then have "q @ r \<in> set (table s)" by (simp add: in_table name_at_append[OF Some])
      then show "get J s (q @ r) = value_at n r"
        by (simp add: get_eq[OF store_inv_plain[OF assms(1)]] value_at_append[OF Some])
    qed
    finally show ?thesis using m mset_collect[OF tn] by simp
  qed
qed

lemma store_abc_inv: "store_inv store_abc"
  by (simp add: store_abc_eq store_inv_def new_Node_socket_def)

section \<open>Lookup after insertion\<close>

lemma set_all_snoc: "set_all s (kvs @ [(k, v)]) = set_trie (set_all s kvs) k v"
  by (simp add: set_all_def)

lemma store_inv_set_all:
  "store_inv s \<Longrightarrow> ''__proto__'' \<notin> fst ` set kvs \<Longrightarrow> store_inv (set_all s kvs)"
proof (induction kvs rule: rev_induct)
  case Nil
  then show ?case by (simp add: set_all_def)
next
  case (snoc kv kvs)
  obtain k v where kv: "kv = (k, v)" by (cases kv)
  from snoc kv have "store_inv (set_all s kvs)" "k \<noteq> ''__proto__''" by auto
  then show ?case unfolding kv set_all_snoc by (rule store_inv_set_trie)
qed

lemma plain_index_set_all:
  "plain_index s \<Longrightarrow> ''__proto__'' \<notin> fst ` set kvs \<Longrightarrow> plain_index (set_all s kvs)"
proof (induction kvs rule: rev_induct)
  case Nil
  then show ?case by (simp add: set_all_def)
next
  case (snoc kv kvs)
  obtain k v where kv: "kv = (k, v)" by (cases kv)
  from snoc kv have "plain_index (set_all s kvs)" "k \<noteq> ''__proto__''" by auto
  then show ?case unfolding kv set_all_snoc by (rule plain_index_set_trie)
qed

lemma get_set_all:
  "plain_index s \<Longrightarrow> ''__proto__'' \<notin> fst ` set kvs \<Longrightarrow>
   get J (set_all s kvs) k =
     (case map_of (rev kvs) k of Some v \<Rightarrow> if k = [] then get J s k else Some v | None \<Rightarrow> get J s k)"
proof (induction kvs rule: rev_induct)
  case Nil
  then show ?case by (simp add: set_all_def)
next
  case (snoc kv kvs)
  obtain k0 v0 where kv: "kv = (k0, v0)" by (cases kv)
  from snoc kv have ih: "get J (set_all s kvs) k =
     (case map_of (rev kvs) k of Some v \<Rightarrow> if k = [] then get J s k else Some v | None \<Rightarrow> get J s k)"
    and np: "k0 \<noteq> ''__proto__''" and np': "''__proto__'' \<notin> fst ` set kvs" by auto
  have pl: "plain_index (set_all s kvs)" by (rule plain_index_set_all[OF snoc.prems(1) np'])
  show ?case
  proof (cases "k0 = []")
    case True
    then show ?thesis using ih unfolding kv set_all_snoc
      by (simp add: set_trie_def split: option.split)
  next
    case False
    then show ?thesis using ih unfolding kv set_all_snoc
      by (simp add: get_set_trie[OF pl False np])
  qed
qed

lemma table_set_trie:
  "key \<noteq> ''__proto__'' \<Longrightarrow> set (table (set_trie s key v)) = set (table s) \<union> ({key} - {[]})"
  by (auto simp: set_trie_def set_table_assign)

lemma table_set_all:
  "''__proto__'' \<notin> fst ` set kvs \<Longrightarrow>
   set (table (set_all s kvs)) = set (table s) \<union> (fst ` set kvs - {[]})"
proof (induction kvs rule: rev_induct)
  case Nil
  then show ?case by (simp add: set_all_def)
next
  case (snoc kv kvs)
  obtain k0 v0 where kv: "kv = (k0, v0)" by (cases kv)
  from snoc kv have ih: "set (table (set_all s kvs)) = set (table s) \<union> (fst ` set kvs - {[]})"
    and np: "k0 \<noteq> ''__proto__''" by auto
  show ?case unfolding kv set_all_snoc table_set_trie[OF np] ih by auto
qed

lemma plain_index_constructor: "plain_index constructor"
  by (simp add: plain_index_def constructor_def)

lemma get_constructor: "get J constructor k = None"
  by (simp add: get_eq[OF plain_index_constructor]) (simp add: constructor_def)

text \<open>
  Claim C4, as the code has it. After a sequence of \<open>set\<close> calls none of
  which has the key \<open>__proto__\<close>, \<open>get\<close> of a non-empty key returns the value of
  the last call for that key, and nothing when there was none; \<open>get\<close> of the
  empty key returns nothing, since \<open>set\<close> ignores the empty key; and both the
  number of entries of the index and the number of terminal nodes of the tree
  are the number of distinct non-empty keys of the calls.
\<close>

theorem get_after_sets:
  assumes "''__proto__'' \<notin> fst ` set kvs"
  shows "get J (set_all constructor kvs) k = (if k = [] then None else map_of (rev kvs) k)
         \<and> length (table (set_all constructor kvs)) = card (fst ` set kvs - {[]})
         \<and> length (terminal_paths (new_Node_socket (rootSocket (set_all constructor kvs))))
             = card (fst ` set kvs - {[]})"
proof -
  let ?s = "set_all constructor kvs"
  have inv: "store_inv ?s" by (rule store_inv_set_all[OF store_inv_constructor assms])
  have tab: "set (table ?s) = fst ` set kvs - {[]}"
    using table_set_all[OF assms, of constructor] by (simp add: constructor_def)
  have 1: "get J ?s k = (if k = [] then None else map_of (rev kvs) k)"
    by (simp add: get_set_all[OF plain_index_constructor assms] get_constructor split: option.split)
  have 2: "length (table ?s) = card (fst ` set kvs - {[]})"
    using inv tab by (metis distinct_card store_inv_def)
  have "distinct (terminal_paths (new_Node_socket (rootSocket ?s)))"
    using inv by (auto simp: store_inv_def intro: distinct_terminal_paths)
  then have 3: "length (terminal_paths (new_Node_socket (rootSocket ?s))) = card (fst ` set kvs - {[]})"
    using inv tab by (metis distinct_card store_inv_def)
  from 1 2 3 show ?thesis by blast
qed

theorem get_after_sets_witness:
  "''__proto__'' \<notin> fst ` set [(''a'', 1::nat), (''b'', 2), (''a'', 3)]
   \<and> get numbers (set_all constructor [(''a'', 1::nat), (''b'', 2), (''a'', 3)]) ''a'' = Some 3
   \<and> length (table (set_all constructor [(''a'', 1::nat), (''b'', 2), (''a'', 3)])) = 2"
proof -
  have np: "''__proto__'' \<notin> fst ` set [(''a'', 1::nat), (''b'', 2), (''a'', 3)]" by simp
  have "fst ` set [(''a'', 1::nat), (''b'', 2), (''a'', 3)] - {[]} = {''a'', ''b''}" by auto
  then have c: "card (fst ` set [(''a'', 1::nat), (''b'', 2), (''a'', 3)] - {[]}) = 2" by simp
  show ?thesis using get_after_sets[OF np, of numbers "''a''"] np c by simp
qed

text \<open>
  Claim C4 as it is stated fails for the empty key: the call \<open>set('', 1)\<close> was
  the last one for its key, and \<open>get('')\<close> returns nothing.
\<close>

theorem get_after_set_empty_key_counterexample:
  "get numbers (set_all constructor [([], 1::nat)]) [] = None
   \<and> map_of (rev [([], 1::nat)]) [] = Some 1"
  by (simp add: set_all_def set_trie_def get_constructor)

section \<open>Facts about \<open>remove\<close>\<close>

lemma name_at_modify_keep:
  assumes "\<And>m. socket (f m) = socket m"
  shows "name_at (modify_at f q n) r =
     (if r = q then (case walk n q of None \<Rightarrow> None | Some e \<Rightarrow> name (f e)) else name_at n r)"
proof (induction q arbitrary: n r)
  case Nil
  show ?case by (cases r) (simp_all add: name_at_Cons assms)
next
  case (Cons a q)
  show ?case
  proof (cases "map_of (socket n) a")
    case None
    then show ?thesis by (cases r) (auto simp: name_at_Cons)
  next
    case (Some ch)
    show ?thesis
    proof (cases r)
      case Nil
      with Some show ?thesis by simp
    next
      case (Cons d r')
      with Some Cons.IH[of ch r'] show ?thesis
        by (auto simp: name_at_Cons update_conv')
    qed
  qed
qed

lemma value_at_modify_keep:
  assumes "\<And>m. socket (f m) = socket m"
  shows "value_at (modify_at f q n) r =
     (if r = q then (case walk n q of None \<Rightarrow> None | Some e \<Rightarrow> val (f e)) else value_at n r)"
proof (induction q arbitrary: n r)
  case Nil
  show ?case by (cases r) (simp_all add: value_at_Cons assms)
next
  case (Cons a q)
  show ?case
  proof (cases "map_of (socket n) a")
    case None
    then show ?thesis by (cases r) (auto simp: value_at_Cons)
  next
    case (Some ch)
    show ?thesis
    proof (cases r)
      case Nil
      with Some show ?thesis by simp
    next
      case (Cons d r')
      with Some Cons.IH[of ch r'] show ?thesis
        by (auto simp: value_at_Cons update_conv')
    qed
  qed
qed

lemma name_at_clear:
  "name_at (modify_at clear_terminal q n) r = (if r = q then None else name_at n r)"
  by (simp add: name_at_modify_keep clear_terminal_def split: option.split)

lemma value_at_clear:
  "value_at (modify_at clear_terminal q n) r = (if r = q then None else value_at n r)"
  by (simp add: value_at_modify_keep clear_terminal_def split: option.split)

lemma name_at_missing: "walk n p = None \<Longrightarrow> name_at n (p @ r) = None"
  by (simp add: name_at_def walk_append)

lemma value_at_missing: "walk n p = None \<Longrightarrow> value_at n (p @ r) = None"
  by (simp add: value_at_def walk_append)

lemma name_at_delete_edge:
  "name_at (modify_at (delete_edge c) p n) r =
     (if prefix (p @ [c]) r then None else name_at n r)"
proof (induction p arbitrary: n r)
  case Nil
  show ?case by (cases r) (simp_all add: name_at_Cons delete_edge_def delete_conv')
next
  case (Cons a p)
  show ?case
  proof (cases "map_of (socket n) a")
    case None
    then show ?thesis by (cases r) (auto simp: name_at_Cons)
  next
    case (Some ch)
    show ?thesis
    proof (cases r)
      case Nil
      with Some show ?thesis by simp
    next
      case (Cons d r')
      with Some Cons.IH[of ch r'] show ?thesis
        by (auto simp: name_at_Cons update_conv')
    qed
  qed
qed

lemma value_at_delete_edge:
  "value_at (modify_at (delete_edge c) p n) r =
     (if prefix (p @ [c]) r then None else value_at n r)"
proof (induction p arbitrary: n r)
  case Nil
  show ?case by (cases r) (simp_all add: value_at_Cons delete_edge_def delete_conv')
next
  case (Cons a p)
  show ?case
  proof (cases "map_of (socket n) a")
    case None
    then show ?thesis by (cases r) (auto simp: value_at_Cons)
  next
    case (Some ch)
    show ?thesis
    proof (cases r)
      case Nil
      with Some show ?thesis by simp
    next
      case (Cons d r')
      with Some Cons.IH[of ch r'] show ?thesis
        by (auto simp: value_at_Cons update_conv')
    qed
  qed
qed

lemma root_modify_at:
  assumes "name n = None" "val n = None" "name (f n) = None" "val (f n) = None"
  shows "new_Node_socket (socket (modify_at f p n)) = modify_at f p n"
proof (cases p)
  case Nil
  with assms(3,4) show ?thesis by (cases "f n") (simp add: new_Node_socket_def)
next
  case (Cons a p')
  with assms(1,2) show ?thesis
    by (cases n) (simp add: new_Node_socket_def split: option.split)
qed

lemma in_set_delete: "e \<in> set (AList.delete k al) \<Longrightarrow> e \<in> set al"
  by (induction al) (auto split: if_splits)

lemma length_delete:
  "distinct (map fst al) \<Longrightarrow> length al \<le> Suc (length (AList.delete k al))"
proof (induction al)
  case Nil
  show ?case by simp
next
  case (Cons a al)
  show ?case
  proof (cases "fst a = k")
    case True
    then have "k \<notin> fst ` set al" using Cons.prems by auto
    then have "AList.delete k al = al" by (simp add: delete_id)
    with True show ?thesis by (cases a) simp
  next
    case False
    with Cons show ?thesis by (cases a) simp
  qed
qed

lemma tinv_clear:
  "tinv pfx n \<Longrightarrow> walk n q = Some e \<Longrightarrow> socket e \<noteq> [] \<Longrightarrow>
   tinv pfx (modify_at clear_terminal q n) \<and> socket (modify_at clear_terminal q n) \<noteq> []"
proof (induction q arbitrary: n pfx)
  case Nil
  then have e: "e = n" by simp
  have "tinv pfx (clear_terminal n)"
  proof (rule tinvI)
    show "distinct (map fst (socket (clear_terminal n)))"
      using tinv_distinct[OF Nil.prems(1)] by (simp add: clear_terminal_def)
    show "case name (clear_terminal n) of None \<Rightarrow> val (clear_terminal n) = None
          | Some k \<Rightarrow> k = pfx \<and> pfx \<noteq> [] \<and> val (clear_terminal n) \<noteq> None"
      by (simp add: clear_terminal_def)
    show "tinv (pfx @ [fst x]) (snd x)" if "x \<in> set (socket (clear_terminal n))" for x
      using that tinv_entry[OF Nil.prems(1)] by (simp add: clear_terminal_def)
    show "name (snd x) \<noteq> None"
      if "x \<in> set (socket (clear_terminal n))" "socket (snd x) = []" for x
      using that tinv_leaf_ok[OF Nil.prems(1)] by (simp add: clear_terminal_def)
  qed
  with Nil.prems(3) e show ?case by (simp add: clear_terminal_def)
next
  case (Cons a q)
  from Cons.prems(2) obtain ch where ch: "map_of (socket n) a = Some ch" "walk ch q = Some e"
    by (auto split: option.splits)
  let ?new = "modify_at clear_terminal q ch"
  from Cons.IH[OF tinv_child[OF Cons.prems(1) ch(1)] ch(2) Cons.prems(3)]
  have tc: "tinv (pfx @ [a]) ?new" and nl: "socket ?new \<noteq> []" by simp_all
  have sock: "socket (modify_at clear_terminal (a # q) n) = AList.update a ?new (socket n)"
    using ch(1) by simp
  note dn = tinv_distinct[OF Cons.prems(1)]
  have "tinv pfx (modify_at clear_terminal (a # q) n)"
  proof (rule tinvI)
    show "distinct (map fst (socket (modify_at clear_terminal (a # q) n)))"
      unfolding sock using dn by (simp add: distinct_update)
    show "case name (modify_at clear_terminal (a # q) n) of
            None \<Rightarrow> val (modify_at clear_terminal (a # q) n) = None
          | Some k \<Rightarrow> k = pfx \<and> pfx \<noteq> [] \<and> val (modify_at clear_terminal (a # q) n) \<noteq> None"
      using tinv_label[OF Cons.prems(1)] ch(1) by (simp split: option.splits)
    show "tinv (pfx @ [fst x]) (snd x)"
      if "x \<in> set (socket (modify_at clear_terminal (a # q) n))" for x
      using in_set_update[OF dn that[unfolded sock]] tc tinv_entry[OF Cons.prems(1)] by auto
    show "name (snd x) \<noteq> None"
      if "x \<in> set (socket (modify_at clear_terminal (a # q) n))" "socket (snd x) = []" for x
    proof -
      from in_set_update[OF dn that(1)[unfolded sock]]
      consider "x = (a, ?new)" | "x \<in> set (socket n)" by blast
      then show ?thesis
      proof cases
        case 1
        with that(2) nl show ?thesis by simp
      next
        case 2
        then show ?thesis using that(2) by (rule tinv_leaf_ok[OF Cons.prems(1)])
      qed
    qed
  qed
  then show ?case unfolding sock by (simp add: update_not_Nil)
qed

lemma tinv_delete_edge:
  "tinv pfx n \<Longrightarrow> walk n p = Some a \<Longrightarrow> anchor a \<Longrightarrow>
   tinv pfx (modify_at (delete_edge c) p n)
   \<and> (socket (modify_at (delete_edge c) p n) = [] \<longrightarrow> truthy (name n))"
proof (induction p arbitrary: n pfx)
  case Nil
  then have a: "a = n" by simp
  note dn = tinv_distinct[OF Nil.prems(1)]
  have "tinv pfx (delete_edge c n)"
  proof (rule tinvI)
    show "distinct (map fst (socket (delete_edge c n)))"
      using dn by (simp add: delete_edge_def distinct_delete)
    show "case name (delete_edge c n) of None \<Rightarrow> val (delete_edge c n) = None
          | Some k \<Rightarrow> k = pfx \<and> pfx \<noteq> [] \<and> val (delete_edge c n) \<noteq> None"
      using tinv_label[OF Nil.prems(1)] by (simp add: delete_edge_def split: option.splits)
    show "tinv (pfx @ [fst x]) (snd x)" if "x \<in> set (socket (delete_edge c n))" for x
    proof -
      from that have "x \<in> set (AList.delete c (socket n))" by (simp add: delete_edge_def)
      then have "x \<in> set (socket n)" by (rule in_set_delete)
      then show ?thesis by (rule tinv_entry[OF Nil.prems(1)])
    qed
    show "name (snd x) \<noteq> None"
      if "x \<in> set (socket (delete_edge c n))" "socket (snd x) = []" for x
    proof -
      from that(1) have "x \<in> set (AList.delete c (socket n))" by (simp add: delete_edge_def)
      then have "x \<in> set (socket n)" by (rule in_set_delete)
      then show ?thesis using that(2) by (rule tinv_leaf_ok[OF Nil.prems(1)])
    qed
  qed
  moreover have "truthy (name n)" if "socket (delete_edge c n) = []"
  proof (rule ccontr)
    assume "\<not> truthy (name n)"
    with Nil.prems(3) a have "2 \<le> length (socket n)" by (simp add: anchor_def length_Object_keys)
    with length_delete[OF dn, of c] that show False by (simp add: delete_edge_def)
  qed
  ultimately show ?case by simp
next
  case (Cons b p)
  from Cons.prems(2) obtain ch where ch: "map_of (socket n) b = Some ch" "walk ch p = Some a"
    by (auto split: option.splits)
  let ?new = "modify_at (delete_edge c) p ch"
  from Cons.IH[OF tinv_child[OF Cons.prems(1) ch(1)] ch(2) Cons.prems(3)]
  have tc: "tinv (pfx @ [b]) ?new" and nl: "socket ?new = [] \<Longrightarrow> truthy (name ch)" by simp_all
  have nm: "name ?new = name ch"
    using name_at_delete_edge[of c p ch "[]"] by simp
  have sock: "socket (modify_at (delete_edge c) (b # p) n) = AList.update b ?new (socket n)"
    using ch(1) by simp
  note dn = tinv_distinct[OF Cons.prems(1)]
  have "tinv pfx (modify_at (delete_edge c) (b # p) n)"
  proof (rule tinvI)
    show "distinct (map fst (socket (modify_at (delete_edge c) (b # p) n)))"
      unfolding sock using dn by (simp add: distinct_update)
    show "case name (modify_at (delete_edge c) (b # p) n) of
            None \<Rightarrow> val (modify_at (delete_edge c) (b # p) n) = None
          | Some k \<Rightarrow> k = pfx \<and> pfx \<noteq> [] \<and> val (modify_at (delete_edge c) (b # p) n) \<noteq> None"
      using tinv_label[OF Cons.prems(1)] ch(1) by (simp split: option.splits)
    show "tinv (pfx @ [fst x]) (snd x)"
      if "x \<in> set (socket (modify_at (delete_edge c) (b # p) n))" for x
      using in_set_update[OF dn that[unfolded sock]] tc tinv_entry[OF Cons.prems(1)] by auto
    show "name (snd x) \<noteq> None"
      if "x \<in> set (socket (modify_at (delete_edge c) (b # p) n))" "socket (snd x) = []" for x
    proof -
      from in_set_update[OF dn that(1)[unfolded sock]]
      consider "x = (b, ?new)" | "x \<in> set (socket n)" by blast
      then show ?thesis
      proof cases
        case 1
        with that(2) nl have "truthy (name ch)" by simp
        then have "name ch \<noteq> None" by (cases "name ch") simp_all
        with 1 nm show ?thesis by simp
      next
        case 2
        then show ?thesis using that(2) by (rule tinv_leaf_ok[OF Cons.prems(1)])
      qed
    qed
  qed
  then show ?case unfolding sock by (simp add: update_not_Nil)
qed

lemma remove_loop_no_anchor:
  "walk n cs \<noteq> None \<Longrightarrow> no_anchor n cs \<Longrightarrow> remove_loop n pre cs pt = Some pt"
proof (induction cs arbitrary: n pre)
  case Nil
  show ?case by simp
next
  case (Cons c cs)
  from Cons.prems(1) obtain ch where ch: "map_of (socket n) c = Some ch" "walk ch cs \<noteq> None"
    by (auto split: option.splits)
  from Cons.prems(2) ch(1) have na: "\<not> anchor n" and nc: "no_anchor ch cs" by simp_all
  from Cons.IH[OF ch(2) nc] na ch(1) show ?case by (simp add: anchor_def)
qed

lemma remove_loop_anchor:
  "walk n cs \<noteq> None \<Longrightarrow> \<not> no_anchor n cs \<Longrightarrow>
   \<exists>p c rest a ch. cs = p @ c # rest \<and> walk n p = Some a \<and> anchor a
     \<and> map_of (socket a) c = Some ch \<and> no_anchor ch rest
     \<and> remove_loop n pre cs pt = Some (Some (pre @ p, c))"
proof (induction cs arbitrary: n pre pt)
  case Nil
  then show ?case by simp
next
  case (Cons c cs)
  from Cons.prems(1) obtain ch where ch: "map_of (socket n) c = Some ch" "walk ch cs \<noteq> None"
    by (auto split: option.splits)
  let ?pt = "if anchor n then Some (pre, c) else pt"
  have step: "remove_loop n pre (c # cs) pt = remove_loop ch (pre @ [c]) cs ?pt"
    using ch(1) by (simp add: anchor_def)
  show ?case
  proof (cases "no_anchor ch cs")
    case True
    with Cons.prems(2) ch(1) have an: "anchor n" by simp
    have "remove_loop n pre (c # cs) pt = Some (Some (pre @ [], c))"
      unfolding step remove_loop_no_anchor[OF ch(2) True] using an by simp
    moreover have "c # cs = [] @ c # cs" "walk n [] = Some n" by simp_all
    ultimately show ?thesis using an ch(1) True by blast
  next
    case False
    from Cons.IH[OF ch(2) False, of "pre @ [c]" ?pt]
    obtain p d rest a x where r: "cs = p @ d # rest" "walk ch p = Some a" "anchor a"
      "map_of (socket a) d = Some x" "no_anchor x rest"
      "remove_loop ch (pre @ [c]) cs ?pt = Some (Some ((pre @ [c]) @ p, d))"
      by blast
    have "c # cs = (c # p) @ d # rest" using r(1) by simp
    moreover have "walk n (c # p) = Some a" using ch(1) r(2) by simp
    moreover have "remove_loop n pre (c # cs) pt = Some (Some (pre @ (c # p), d))"
      unfolding step r(6) by simp
    ultimately show ?thesis using r(3,4,5) by blast
  qed
qed

lemma single_entry:
  "length al < 2 \<Longrightarrow> map_of al c = Some v \<Longrightarrow> map_of al d = Some x \<Longrightarrow> d = c \<and> x = v"
proof -
  assume a: "length al < 2" "map_of al c = Some v" "map_of al d = Some x"
  from a(2) have "al \<noteq> []" by auto
  with a(1) obtain e where "al = [e]" by (cases al) (auto simp: Suc_less_eq2)
  with a(2,3) show ?thesis by (cases e) (auto split: if_splits)
qed

lemma chain_only_key:
  "no_anchor n rest \<Longrightarrow> walk n rest = Some e \<Longrightarrow> socket e = [] \<Longrightarrow>
   truthy (name_at n r) \<Longrightarrow> r = rest"
proof (induction rest arbitrary: n r)
  case Nil
  then have "socket n = []" by simp
  with Nil.prems(4) show ?case by (cases r) (simp_all add: name_at_Cons)
next
  case (Cons c rest)
  from Cons.prems(2) obtain ch where ch: "map_of (socket n) c = Some ch" "walk ch rest = Some e"
    by (auto split: option.splits)
  from Cons.prems(1) ch(1) have na: "\<not> anchor n" and nc: "no_anchor ch rest" by simp_all
  from na have nt: "\<not> truthy (name n)" and len: "length (socket n) < 2"
    by (simp_all add: anchor_def length_Object_keys)
  show ?case
  proof (cases r)
    case Nil
    with Cons.prems(4) nt show ?thesis by simp
  next
    case (Cons d r')
    with Cons.prems(4) obtain x where x: "map_of (socket n) d = Some x" "truthy (name_at x r')"
      by (auto simp: name_at_Cons split: option.splits)
    from single_entry[OF len ch(1) x(1)] have "d = c" "x = ch" by simp_all
    with Cons.IH[OF nc ch(2) Cons.prems(3)] x(2) Cons show ?thesis by simp
  qed
qed


lemma store_invI:
  assumes "new_Node_socket (rootSocket s') = root'" "tinv [] root'" "distinct (table s')"
    and "\<And>p. p \<in> set (table s') \<longleftrightarrow> truthy (name_at root' p)"
    and "stale s' = []" "proto s' = None"
  shows "store_inv s'"
proof -
  have "set (table s') = set (terminal_paths root')"
    using assms(4) terminal_paths_iff[OF assms(2)] by blast
  with assms(1,2,3,5,6) show ?thesis by (simp add: store_inv_def)
qed

lemma truthy_name_at_walk: "truthy (name_at n p) \<Longrightarrow> \<exists>e. walk n p = Some e \<and> truthy (name e)"
  by (cases "walk n p") (simp_all add: name_at_def)

lemma in_map_filter: "y \<in> set (List.map_filter f xs) \<Longrightarrow> \<exists>x \<in> set xs. f x = Some y"
  by (induction xs) (auto split: option.splits)

lemma delete_all_keys: "(\<And>e. e \<in> set al \<Longrightarrow> fst e = k) \<Longrightarrow> AList.delete k al = []"
  by (induction al) auto

lemma clear_found_own:
  "k \<in> set (table s) \<Longrightarrow>
   clear_found s k =
     \<lparr>rootSocket = socket (modify_at clear_terminal k (new_Node_socket (rootSocket s))),
      table = removeAll k (table s), stale = AList.delete k (stale s), proto = proto s\<rparr>"
  by (simp add: clear_found_def forget_def)

lemma forget_cut:
  "forget (cut s p c) k =
     \<lparr>rootSocket = socket (modify_at (delete_edge c) p (new_Node_socket (rootSocket s))),
      table = removeAll k (filter (\<lambda>k'. \<not> prefix (p @ [c]) k') (table s)),
      stale = AList.delete k (stale (cut s p c)), proto = proto (cut s p c)\<rparr>"
  by (simp add: forget_def cut_def)

lemma stale_cut_only:
  assumes "stale s = []" "\<And>k'. k' \<in> set (table s) \<Longrightarrow> prefix (p @ [c]) k' \<Longrightarrow> k' = k"
  shows "AList.delete k (stale (cut s p c)) = []"
proof (rule delete_all_keys)
  fix e assume "e \<in> set (stale (cut s p c))"
  then obtain k' where "k' \<in> set (table s)"
    "(if prefix (p @ [c]) k' then map_option (Pair k') (walk (new_Node_socket (rootSocket s)) k')
      else None) = Some e"
    using assms(1) by (auto simp: cut_def dest: in_map_filter)
  then show "fst e = k" using assms(2)[of k'] by (auto split: if_splits)
qed

lemma remove_found:
  "table_lookup s k = Found e \<Longrightarrow>
   remove J s k =
     (if socket e \<noteq> [] then Inr (clear_found s k) else prune s k)"
  by (simp add: remove_def length_Object_keys)

lemma remove_stored:
  assumes inv: "store_inv s" and k: "k \<in> set (table s)"
  shows "\<exists>s'. remove J s k = Inr s' \<and> store_inv s' \<and> set (table s') = set (table s) - {k}
           \<and> get J s' k = None \<and> (\<forall>k'. k' \<noteq> k \<longrightarrow> get J s' k' = get J s k')"
proof -
  let ?root = "new_Node_socket (rootSocket s)"
  from inv have t: "tinv [] ?root" and d: "distinct (table s)"
    and tp: "set (table s) = set (terminal_paths ?root)"
    and st: "stale s = []" and pr: "proto s = None" by (simp_all add: store_inv_def)
  have pl: "plain_index s" by (rule store_inv_plain[OF inv])
  have in_table: "k' \<in> set (table s) \<longleftrightarrow> truthy (name_at ?root k')" for k'
    unfolding tp by (rule terminal_paths_iff[OF t])
  from k obtain e where e: "walk ?root k = Some e"
    using truthy_name_at_walk in_table by blast
  have lk: "table_lookup s k = Found e" using k e by (simp add: table_lookup_def deref_def)
  have rn: "name ?root = None" "val ?root = None" by (simp_all add: new_Node_socket_def)
  show ?thesis
  proof (cases "socket e = []")
    case False
    let ?root' = "modify_at clear_terminal k ?root"
    let ?s' = "clear_found s k"
    have f: "rootSocket ?s' = socket ?root'" "table ?s' = removeAll k (table s)"
      "stale ?s' = []" "proto ?s' = None"
      by (simp_all add: clear_found_own[OF k] st pr)
    have r: "remove J s k = Inr ?s'"
      using False by (simp add: remove_found[OF lk])
    have root': "new_Node_socket (rootSocket ?s') = ?root'"
      unfolding f(1) using root_modify_at[OF rn, of clear_terminal k] by (simp add: clear_terminal_def)
    have t': "tinv [] ?root'" using tinv_clear[OF t e False] by simp
    have i': "store_inv ?s'"
      by (rule store_invI[OF root' t' _ _ f(3,4)])
        (use d in \<open>auto simp: f(2) name_at_clear in_table distinct_removeAll\<close>)
    have g: "get J ?s' k' = (if k' = k then None else get J s k')" for k'
      unfolding get_eq[OF pl] get_eq[OF store_inv_plain[OF i']] root' f(2)
      by (simp add: value_at_clear)
    from r i' g f(2) show ?thesis by auto
  next
    case True
    show ?thesis
    proof (cases "no_anchor ?root k")
      case na: True
      have r: "remove J s k = Inr (reset s)"
        using True remove_loop_no_anchor[OF _ na, of "[]" None] e
        by (simp add: remove_found[OF lk] prune_def)
      have only: "k' = k" if "k' \<in> set (table s)" for k'
        using chain_only_key[OF na e True] that by (simp add: in_table)
      have i': "store_inv (reset s)"
        by (simp add: reset_def store_inv_def new_Node_socket_def)
      have g: "get J (reset s) k' = None" for k'
        by (simp add: get_eq[OF store_inv_plain[OF i']]) (simp add: reset_def)
      have g0: "get J s k' = None" if "k' \<noteq> k" for k'
        using only that by (auto simp: get_eq[OF pl])
      have "set (table (reset s)) = set (table s) - {k}" using only by (auto simp: reset_def)
      with r i' g g0 show ?thesis by auto
    next
      case False
      from remove_loop_anchor[OF _ False, of "[]" None] e
      obtain p c rest a ch where pc: "k = p @ c # rest" "walk ?root p = Some a" "anchor a"
        "map_of (socket a) c = Some ch" "no_anchor ch rest"
        "remove_loop ?root [] k None = Some (Some (p, c))"
        by auto
      let ?root' = "modify_at (delete_edge c) p ?root"
      let ?s' = "forget (cut s p c) k"
      have r: "remove J s k = Inr ?s'"
        using True pc(6) by (simp add: remove_found[OF lk] prune_def)
      have de: "name (delete_edge c ?root) = None" "val (delete_edge c ?root) = None"
        using rn by (simp_all add: delete_edge_def)
      have wch: "walk ?root (p @ [c]) = Some ch" using pc(2,4) by (simp add: walk_append)
      have kk: "k = (p @ [c]) @ rest" using pc(1) by simp
      have we: "walk ch rest = Some e" using e wch unfolding kk walk_append by simp
      have pk: "prefix (p @ [c]) k" unfolding kk by simp
      have only: "r = k" if "prefix (p @ [c]) r" "truthy (name_at ?root r)" for r
      proof -
        from that(1) obtain r' where r': "r = (p @ [c]) @ r'" by (auto simp: prefix_def)
        with that(2) have "truthy (name_at ch r')" by (simp only: name_at_append[OF wch])
        from chain_only_key[OF pc(5) we True this] r' kk show ?thesis by simp
      qed
      have only_t: "k' = k" if "k' \<in> set (table s)" "prefix (p @ [c]) k'" for k'
        using only[of k'] that by (simp add: in_table)
      have f: "rootSocket ?s' = socket ?root'"
        "table ?s' = removeAll k (filter (\<lambda>k'. \<not> prefix (p @ [c]) k') (table s))"
        "stale ?s' = []" "proto ?s' = None"
        using stale_cut_only[OF st only_t] pr
        by (simp_all add: forget_cut) (simp add: cut_def)
      have ts: "set (table ?s') = set (table s) - {k}"
        unfolding f(2) using only_t by auto
      have dt: "distinct (table ?s')" unfolding f(2) using d by (simp add: distinct_removeAll)
      have root': "new_Node_socket (rootSocket ?s') = ?root'"
        unfolding f(1) using root_modify_at[of ?root "delete_edge c" p] rn de by simp
      have t': "tinv [] ?root'" using tinv_delete_edge[OF t pc(2) pc(3)] by simp
      have nm: "truthy (name_at ?root' r) \<longleftrightarrow> truthy (name_at ?root r) \<and> r \<noteq> k" for r
        using only[of r] pk by (auto simp: name_at_delete_edge)
      have i': "store_inv ?s'"
        by (rule store_invI[OF root' t' dt _ f(3,4)]) (auto simp: ts nm in_table)
      have g: "get J ?s' k' = (if k' = k then None else get J s k')" for k'
      proof (cases "k' \<in> set (table s) \<and> k' \<noteq> k")
        case True
        then have "\<not> prefix (p @ [c]) k'" using only_t[of k'] by auto
        with True show ?thesis
          unfolding get_eq[OF pl] get_eq[OF store_inv_plain[OF i']] root' ts
          by (simp add: value_at_delete_edge)
      next
        case False
        then show ?thesis
          unfolding get_eq[OF pl] get_eq[OF store_inv_plain[OF i']] root' ts by auto
      qed
      from r i' g ts show ?thesis by auto
    qed
  qed
qed

lemma tinv_truthy: "tinv pfx n \<Longrightarrow> name n \<noteq> None \<Longrightarrow> truthy (name n)"
  using tinv_label[of pfx n] by (cases "name n") auto

lemma live_descendant:
  "tinv pfx m \<Longrightarrow> (socket m = [] \<longrightarrow> name m \<noteq> None) \<Longrightarrow> \<exists>r. truthy (name_at m r)"
proof (induction m arbitrary: pfx)
  case (Node nm v cs)
  show ?case
  proof (cases "truthy nm")
    case True
    then have "truthy (name_at (Node nm v cs) [])" by simp
    then show ?thesis by blast
  next
    case False
    with tinv_truthy[OF Node.prems(1)] have "nm = None" by (cases nm) auto
    with Node.prems(2) obtain c ch rest where cs: "cs = (c, ch) # rest" by (cases cs) auto
    then have mem: "(c, ch) \<in> set cs" by simp
    have tc: "tinv (pfx @ [c]) ch" using tinv_entry[OF Node.prems(1), of "(c, ch)"] mem by simp
    have lc: "socket ch = [] \<longrightarrow> name ch \<noteq> None"
      using tinv_leaf_ok[OF Node.prems(1), of "(c, ch)"] mem by simp
    from Node.IH[OF mem _ tc lc] obtain r where "truthy (name_at ch r)" by auto
    then have "truthy (name_at (Node nm v cs) (c # r))" using cs by (simp add: name_at_Cons)
    then show ?thesis by blast
  qed
qed

lemma tinv_walk_leaf:
  "tinv pfx n \<Longrightarrow> walk n p = Some m \<Longrightarrow> p \<noteq> [] \<Longrightarrow> socket m = [] \<Longrightarrow> name m \<noteq> None"
proof (induction p arbitrary: n pfx)
  case Nil
  then show ?case by simp
next
  case (Cons c p)
  from Cons.prems(2) obtain ch where ch: "map_of (socket n) c = Some ch" "walk ch p = Some m"
    by (auto split: option.splits)
  show ?case
  proof (cases "p = []")
    case True
    with ch have "(c, m) \<in> set (socket n)" by (auto dest: map_of_SomeD)
    from tinv_leaf_ok[OF Cons.prems(1) this] Cons.prems(4) show ?thesis by simp
  next
    case False
    from Cons.IH[OF tinv_child[OF Cons.prems(1) ch(1)] ch(2) False Cons.prems(4)]
    show ?thesis .
  qed
qed

lemma no_dead_node:
  assumes "store_inv s" "p \<noteq> []" "getClosestNode s p = Some m"
  shows "\<exists>k \<in> set (table s). prefix p k"
proof -
  let ?root = "new_Node_socket (rootSocket s)"
  from assms(1) have t: "tinv [] ?root"
    and tp: "set (table s) = set (terminal_paths ?root)" by (simp_all add: store_inv_def)
  from assms(3) have w: "walk ?root p = Some m" by (simp add: getClosestNode_def)
  have tm: "tinv p m" using tinv_walk[OF t w] by simp
  have "socket m = [] \<longrightarrow> name m \<noteq> None" using tinv_walk_leaf[OF t w assms(2)] by blast
  from live_descendant[OF tm this] obtain r where "truthy (name_at m r)" by blast
  then have "truthy (name_at ?root (p @ r))" by (simp add: name_at_append[OF w])
  then have "p @ r \<in> set (table s)" unfolding tp by (simp add: terminal_paths_iff[OF t])
  then show ?thesis by (intro bexI[of _ "p @ r"]) simp_all
qed

lemma path_of_key_exists:
  assumes "store_inv s" "k \<in> set (table s)" "prefix p k"
  shows "getClosestNode s p \<noteq> None"
proof -
  let ?root = "new_Node_socket (rootSocket s)"
  from assms(1) have t: "tinv [] ?root"
    and tp: "set (table s) = set (terminal_paths ?root)" by (simp_all add: store_inv_def)
  from assms(2) have "truthy (name_at ?root k)" unfolding tp by (simp add: terminal_paths_iff[OF t])
  then obtain e where e: "walk ?root k = Some e" using truthy_name_at_walk by blast
  from assms(3) obtain r where "k = p @ r" by (auto simp: prefix_def)
  with e show ?thesis by (auto simp: getClosestNode_def walk_append split: option.splits)
qed

lemma mset_table_remove:
  assumes "distinct t" "distinct t'" "set t' = set t - {k}"
  shows "mset t' = mset t - {#k#}"
proof -
  have "distinct (removeAll k t)" using assms(1) by (simp add: distinct_removeAll)
  moreover have "set (removeAll k t) = set t'" using assms(3) by auto
  ultimately have "mset t' = mset (removeAll k t)"
    using assms(2) set_eq_iff_mset_eq_distinct[of t' "removeAll k t"] by simp
  also have "\<dots> = mset t - {#k#}"
    using assms(1) by (simp add: distinct_remove1_removeAll[symmetric])
  finally show ?thesis .
qed

lemma match_after_remove:
  assumes inv: "store_inv s" and inv': "store_inv s'"
    and tab: "set (table s') = set (table s) - {k}" and k: "k \<in> set (table s)"
    and g: "\<And>k'. k' \<noteq> k \<Longrightarrow> get J s' k' = get J s k'"
  shows "mset (match s' q None)
         = mset (match s q None) - (if q \<noteq> [] \<and> prefix q k then {#get J s k#} else {#})"
proof (cases "q = []")
  case True
  then show ?thesis by (simp add: match_def)
next
  case False
  from inv inv' have d: "distinct (table s)" and d': "distinct (table s')"
    by (simp_all add: store_inv_def)
  have mt: "mset (table s') = mset (table s) - {#k#}" by (rule mset_table_remove[OF d d' tab])
  let ?F = "filter_mset (prefix q) (mset (table s))"
  have f': "filter_mset (prefix q) (mset (table s')) = ?F - (if prefix q k then {#k#} else {#})"
    unfolding mt by (simp add: filter_diff_mset)
  have nk: "k' \<noteq> k" if "k' \<in># filter_mset (prefix q) (mset (table s'))" for k'
    using that tab by auto
  have "mset (match s' q None) = image_mset (get J s') (filter_mset (prefix q) (mset (table s')))"
    using match_prefix_mset[OF inv' False] by simp
  also have "\<dots> = image_mset (get J s) (filter_mset (prefix q) (mset (table s')))"
    by (rule image_mset_cong) (use nk g in blast)
  also have "\<dots> = image_mset (get J s) (?F - (if prefix q k then {#k#} else {#}))"
    by (simp only: f')
  also have "\<dots> = image_mset (get J s) ?F - (if prefix q k then {#get J s k#} else {#})"
  proof (cases "prefix q k")
    case True
    then have "{#k#} \<subseteq># ?F" using k by simp
    from image_mset_Diff[OF this, of "get J s"] True show ?thesis by simp
  next
    case False
    then show ?thesis by simp
  qed
  also have "image_mset (get J s) ?F = mset (match s q None)"
    using match_prefix_mset[OF inv False] by simp
  finally show ?thesis using False by simp
qed

lemma remove_unknown:
  "plain_index s \<Longrightarrow> k \<notin> set (table s) \<Longrightarrow> k \<notin> set Object_prototype_names \<Longrightarrow>
   remove J s k = Inr s"
  by (simp add: remove_def table_lookup_plain)

lemma remove_inherited:
  "plain_index s \<Longrightarrow> k \<notin> set (table s) \<Longrightarrow> k \<in> set Object_prototype_names \<Longrightarrow>
   remove J s k = Inl TypeError"
  by (simp add: remove_def table_lookup_plain)

lemma store_inv_perform:
  assumes "store_inv s" "\<not> sets_proto op"
  shows "store_inv (perform J s op)"
proof (cases op)
  case (Set key v)
  with assms show ?thesis by (simp add: store_inv_set_trie)
next
  case (Remove k)
  show ?thesis
  proof (cases "k \<in> set (table s)")
    case True
    from remove_stored[OF assms(1) True, of J] Remove show ?thesis by auto
  next
    case False
    then show ?thesis
      using assms(1) Remove remove_unknown[OF store_inv_plain[OF assms(1)] False]
        remove_inherited[OF store_inv_plain[OF assms(1)] False]
      by (cases "k \<in> set Object_prototype_names") simp_all
  qed
next
  case Reset
  then show ?thesis by (simp add: reset_def store_inv_def new_Node_socket_def)
qed (use assms in simp_all)

lemma store_inv_run:
  "store_inv s \<Longrightarrow> \<forall>op \<in> set ops. \<not> sets_proto op \<Longrightarrow> store_inv (foldl (perform J) s ops)"
  by (induction ops arbitrary: s) (simp_all add: store_inv_perform)

lemma store_inv_entry:
  assumes "store_inv s" "k \<in> set (table s)"
  shows "\<exists>n. deref s k = Some n \<and> name n = Some k \<and> val n \<noteq> None"
proof -
  let ?root = "new_Node_socket (rootSocket s)"
  from assms(1) have t: "tinv [] ?root"
    and tp: "set (table s) = set (terminal_paths ?root)" by (simp_all add: store_inv_def)
  from assms(2) have "truthy (name_at ?root k)" unfolding tp by (simp add: terminal_paths_iff[OF t])
  then obtain n where n: "walk ?root k = Some n" "truthy (name n)" using truthy_name_at_walk by blast
  from tinv_label[OF tinv_walk[OF t n(1)]] n(2) have "name n = Some k \<and> val n \<noteq> None"
    by (cases "name n") auto
  with n(1) show ?thesis by (simp add: deref_def)
qed

lemma store_nested_eq:
  "store_nested =
     \<lparr>rootSocket =
        [(CHR ''a'', Node None None
           [(CHR ''b'', Node (Some ''ab'') (Some 1)
              [(CHR ''c'', Node (Some ''abc'') (Some 2) [])])])],
      table = [''ab'', ''abc''], stale = [], proto = None\<rparr>"
  by (simp add: store_nested_def set_trie_def constructor_def new_Node_socket_def new_Node_def
      table_assign_def)

lemmas remove_eval = remove_def table_lookup_def deref_def new_Node_socket_def
  Object_keys_def Object_entries_def is_index_def clear_terminal_def delete_edge_def
  reset_def anchor_def clear_found_def forget_def prune_def cut_def proto_node_def
  through_prototype_def

lemma store_inv_reachable: "store_inv s \<Longrightarrow> index_reachable s"
  using store_inv_entry[of s] by (auto simp: index_reachable_def)

lemma remove_twice:
  assumes "store_inv s" "k \<in> set (table s)" "k \<notin> set Object_prototype_names"
    "remove J s k = Inr s'"
  shows "remove J s' k = Inr s'"
proof -
  from remove_stored[OF assms(1,2), of J] assms(4)
  have "k \<notin> set (table s')" "store_inv s'" by auto
  then show ?thesis using assms(3) remove_unknown[OF store_inv_plain] by blast
qed

section \<open>The references of the table\<close>

lemma walk_set_loop_keeps:
  "walk n p \<noteq> None \<Longrightarrow> walk (set_loop key v cs n) p \<noteq> None"
proof (induction cs arbitrary: n p)
  case Nil
  then show ?case by (cases p) simp_all
next
  case (Cons c cs)
  show ?case
  proof (cases p)
    case Nil
    then show ?thesis by simp
  next
    case (Cons d p')
    with Cons.prems obtain ch where ch: "map_of (socket n) d = Some ch" "walk ch p' \<noteq> None"
      by (auto split: option.splits)
    show ?thesis
    proof (cases "d = c")
      case True
      with ch Cons.IH[OF ch(2)] Cons show ?thesis by (simp add: update_conv')
    next
      case False
      with ch Cons show ?thesis by (simp add: update_conv')
    qed
  qed
qed

lemma walk_set_loop_key: "walk (set_loop key v cs n) cs \<noteq> None"
  by (induction cs arbitrary: n) (simp_all add: update_conv')

lemma walk_modify_keep:
  assumes "\<And>m. socket (f m) = socket m"
  shows "walk (modify_at f q n) p = None \<longleftrightarrow> walk n p = None"
proof (induction q arbitrary: n p)
  case Nil
  show ?case by (cases p) (simp_all add: assms)
next
  case (Cons a q)
  show ?case
  proof (cases "map_of (socket n) a")
    case None
    then show ?thesis by simp
  next
    case (Some ch)
    show ?thesis
    proof (cases p)
      case Nil
      with Some show ?thesis by simp
    next
      case (Cons d p')
      with Some Cons.IH[of ch p'] show ?thesis by (auto simp: update_conv')
    qed
  qed
qed

lemma walk_delete_edge:
  "walk (modify_at (delete_edge c) pre n) p = None \<longleftrightarrow> walk n p = None \<or> prefix (pre @ [c]) p"
proof (induction pre arbitrary: n p)
  case Nil
  show ?case by (cases p) (auto simp: delete_edge_def delete_conv')
next
  case (Cons a pre)
  show ?case
  proof (cases "map_of (socket n) a")
    case None
    then show ?thesis by (cases p) auto
  next
    case (Some ch)
    show ?thesis
    proof (cases p)
      case Nil
      with Some show ?thesis by simp
    next
      case (Cons d p')
      with Some Cons.IH[of ch p'] show ?thesis by (auto simp: update_conv')
    qed
  qed
qed

lemma root_modify_at_below:
  "p \<noteq> [] \<Longrightarrow> new_Node_socket (socket (modify_at f p (new_Node_socket rs)))
     = modify_at f p (new_Node_socket rs)"
  by (cases p) (simp_all add: new_Node_socket_def split: option.split)

lemma root_clear: "new_Node_socket (socket (modify_at clear_terminal p (new_Node_socket rs)))
     = modify_at clear_terminal p (new_Node_socket rs)"
  by (cases p) (simp_all add: new_Node_socket_def clear_terminal_def split: option.split)

lemma root_delete_edge: "new_Node_socket (socket (modify_at (delete_edge c) p (new_Node_socket rs)))
     = modify_at (delete_edge c) p (new_Node_socket rs)"
  by (cases p) (simp_all add: new_Node_socket_def delete_edge_def split: option.split)

lemma refs_okI:
  assumes "\<And>k. k \<in> set (table s) \<Longrightarrow> walk (new_Node_socket (rootSocket s)) k \<noteq> None"
    and "proto s = Some In_tree \<Longrightarrow> walk (new_Node_socket (rootSocket s)) ''__proto__'' \<noteq> None"
  shows "refs_ok s"
  using assms by (auto simp: refs_ok_def index_reachable_def deref_def)

lemma refs_okD:
  assumes "refs_ok s"
  shows "k \<in> set (table s) \<Longrightarrow> walk (new_Node_socket (rootSocket s)) k \<noteq> None"
    and "proto s = Some In_tree \<Longrightarrow> walk (new_Node_socket (rootSocket s)) ''__proto__'' \<noteq> None"
  using assms by (auto simp: refs_ok_def index_reachable_def deref_def)

lemma refs_ok_set_trie: "refs_ok s \<Longrightarrow> refs_ok (set_trie s key v)"
proof (cases "key = []")
  case True
  then show "refs_ok s \<Longrightarrow> ?thesis" by (simp add: set_trie_def)
next
  case False
  assume ok: "refs_ok s"
  let ?r = "new_Node_socket (rootSocket s)"
  have root: "new_Node_socket (rootSocket (set_trie s key v)) = set_loop key v key ?r"
    using False by (simp add: set_trie_def root_set_loop)
  show ?thesis
  proof (rule refs_okI)
    fix k assume "k \<in> set (table (set_trie s key v))"
    then have "k = key \<or> k \<in> set (table s)"
      using False by (auto simp: set_trie_def table_assign_def split: if_splits)
    then show "walk (new_Node_socket (rootSocket (set_trie s key v))) k \<noteq> None"
      unfolding root using walk_set_loop_key[of key v key ?r]
        walk_set_loop_keeps[OF refs_okD(1)[OF ok], of k key v key] by blast
  next
    assume "proto (set_trie s key v) = Some In_tree"
    then have "key = ''__proto__'' \<or> proto s = Some In_tree"
      using False by (auto simp: set_trie_def split: if_splits)
    then show "walk (new_Node_socket (rootSocket (set_trie s key v))) ''__proto__'' \<noteq> None"
      unfolding root using walk_set_loop_key[of key v key ?r]
        walk_set_loop_keeps[OF refs_okD(2)[OF ok], of key v key] by blast
  qed
qed

lemma refs_ok_forget: "refs_ok s \<Longrightarrow> refs_ok (forget s k)"
  by (auto simp: refs_ok_def index_reachable_def deref_def forget_def)

lemma refs_ok_modify_keep:
  assumes "refs_ok s" "\<And>m. socket (f m) = socket m"
    "new_Node_socket (socket (modify_at f p (new_Node_socket (rootSocket s))))
      = modify_at f p (new_Node_socket (rootSocket s))"
  shows "refs_ok (s\<lparr>rootSocket := socket (modify_at f p (new_Node_socket (rootSocket s)))\<rparr>)"
proof (rule refs_okI)
  let ?r = "new_Node_socket (rootSocket s)"
  let ?s = "s\<lparr>rootSocket := socket (modify_at f p ?r)\<rparr>"
  have root: "new_Node_socket (rootSocket ?s) = modify_at f p ?r"
    by (simp add: assms(3))
  {
    fix k assume "k \<in> set (table ?s)"
    then have "k \<in> set (table s)" by simp
    from refs_okD(1)[OF assms(1) this] show "walk (new_Node_socket (rootSocket ?s)) k \<noteq> None"
      unfolding root by (simp only: walk_modify_keep[OF assms(2)] simp_thms)
  next
    assume "proto ?s = Some In_tree"
    then have "proto s = Some In_tree" by simp
    from refs_okD(2)[OF assms(1) this]
    show "walk (new_Node_socket (rootSocket ?s)) ''__proto__'' \<noteq> None"
      unfolding root by (simp only: walk_modify_keep[OF assms(2)] simp_thms)
  }
qed

lemma refs_ok_clear_found: "refs_ok s \<Longrightarrow> refs_ok (clear_found s k)"
proof -
  assume ok: "refs_ok s"
  have ct: "socket (clear_terminal m) = socket m" for m :: "'a node"
    by (simp add: clear_terminal_def)
  have tree: "refs_ok (s\<lparr>rootSocket :=
      socket (modify_at clear_terminal p (new_Node_socket (rootSocket s)))\<rparr>)" for p
    by (rule refs_ok_modify_keep[OF ok ct root_clear])
  show ?thesis
  proof (cases "k \<in> set (table s)")
    case True
    then show ?thesis using refs_ok_forget[OF tree[of k], of k] by (simp add: clear_found_def)
  next
    case False
    show ?thesis
    proof (cases "map_of (stale s) k")
      case (Some n)
      with False show ?thesis using refs_ok_forget[OF ok, of k] by (simp add: clear_found_def)
    next
      case None
      show ?thesis
      proof (cases "proto s")
        case None
        with False \<open>map_of (stale s) k = None\<close> ok show ?thesis by (simp add: clear_found_def)
      next
        case (Some r)
        show ?thesis
        proof (cases r)
          case In_tree
          with Some False \<open>map_of (stale s) k = None\<close> tree[of "''__proto__''"] show ?thesis
            by (simp add: clear_found_def)
        next
          case (Off_tree n)
          with Some False \<open>map_of (stale s) k = None\<close> ok show ?thesis
            by (auto simp: clear_found_def refs_ok_def index_reachable_def deref_def)
        qed
      qed
    qed
  qed
qed

lemma refs_ok_clear_stored: "refs_ok s \<Longrightarrow> refs_ok (clear_stored J s v)"
proof -
  assume ok: "refs_ok s"
  have sv: "socket (set_value w m) = socket m" for m :: "'a node" and w
    by (simp add: set_value_def)
  show ?thesis
  proof (cases "proto s")
    case None
    with ok show ?thesis by (simp add: clear_stored_def)
  next
    case (Some r)
    show ?thesis
    proof (cases r)
      case In_tree
      have "refs_ok (s\<lparr>rootSocket := socket (modify_at (set_value (Some (without_name_value J v)))
              ''__proto__'' (new_Node_socket (rootSocket s)))\<rparr>)"
        by (rule refs_ok_modify_keep[OF ok sv]) (rule root_modify_at_below, simp)
      with Some In_tree show ?thesis by (simp add: clear_stored_def)
    next
      case (Off_tree n)
      with Some ok show ?thesis
        by (auto simp: clear_stored_def refs_ok_def index_reachable_def deref_def)
    qed
  qed
qed

lemma refs_ok_cut: "refs_ok s \<Longrightarrow> refs_ok (cut s p c)"
proof (rule refs_okI)
  assume ok: "refs_ok s"
  let ?r = "new_Node_socket (rootSocket s)"
  have root: "new_Node_socket (rootSocket (cut s p c)) = modify_at (delete_edge c) p ?r"
    by (simp add: cut_def root_delete_edge)
  {
    fix k assume "k \<in> set (table (cut s p c))"
    then have "k \<in> set (table s)" "\<not> prefix (p @ [c]) k" by (simp_all add: cut_def)
    then show "walk (new_Node_socket (rootSocket (cut s p c))) k \<noteq> None"
      unfolding root using refs_okD(1)[OF ok, of k] by (simp add: walk_delete_edge)
  next
    assume pr: "proto (cut s p c) = Some In_tree"
    then have "proto s = Some In_tree"
      by (auto simp: cut_def split: option.splits ref.splits if_splits)
    with pr refs_okD(2)[OF ok] have "\<not> prefix (p @ [c]) ''__proto__''"
      by (auto simp: cut_def split: option.splits if_splits)
    with refs_okD(2)[OF ok \<open>proto s = Some In_tree\<close>]
    show "walk (new_Node_socket (rootSocket (cut s p c))) ''__proto__'' \<noteq> None"
      unfolding root by (simp only: walk_delete_edge simp_thms)
  }
qed

lemma refs_ok_reset: "refs_ok (reset s)"
  by (simp add: refs_ok_def index_reachable_def reset_def)

lemma refs_ok_prune:
  assumes "refs_ok s" "prune s k = Inr s'"
  shows "refs_ok s'"
proof (cases "remove_loop (new_Node_socket (rootSocket s)) [] k None")
  case None
  with assms show ?thesis by (simp add: prune_def)
next
  case (Some a)
  show ?thesis
  proof (cases a)
    case None
    with Some assms(2) have "s' = reset s" by (simp add: prune_def)
    then show ?thesis by (simp add: refs_ok_reset)
  next
    case (Some pc)
    obtain pre c where pc: "pc = (pre, c)" by (cases pc)
    with Some \<open>remove_loop (new_Node_socket (rootSocket s)) [] k None = Some a\<close> assms(2)
    have "s' = forget (cut s pre c) k" by (simp add: prune_def)
    then show ?thesis by (simp add: refs_ok_forget refs_ok_cut assms(1))
  qed
qed

lemma refs_ok_remove:
  assumes "refs_ok s" "remove J s k = Inr s'"
  shows "refs_ok s'"
proof (cases "table_lookup s k")
  case Undefined
  with assms show ?thesis by (simp add: remove_def)
next
  case Inherited
  with assms show ?thesis by (simp add: remove_def)
next
  case Detached
  with assms show ?thesis by (simp add: remove_def)
next
  case (Found nd)
  show ?thesis
  proof (cases "length (Object_keys (socket nd)) \<noteq> 0")
    case True
    with Found assms(2) have "s' = clear_found s k" by (simp add: remove_def)
    then show ?thesis by (simp add: refs_ok_clear_found assms(1))
  next
    case False
    with Found assms(2) have "prune s k = Inr s'" by (simp add: remove_def)
    then show ?thesis by (rule refs_ok_prune[OF assms(1)])
  qed
next
  case (Stored v)
  show ?thesis
  proof (cases "is_falsy J v")
    case True
    with Stored assms show ?thesis by (simp add: remove_def)
  next
    case False
    show ?thesis
    proof (cases "socket_keys J v")
      case None
      with False Stored assms show ?thesis by (simp add: remove_def)
    next
      case (Some n)
      show ?thesis
      proof (cases "n \<noteq> 0")
        case True
        with Some False Stored assms(2) have "s' = clear_stored J s v" by (simp add: remove_def)
        then show ?thesis by (simp add: refs_ok_clear_stored assms(1))
      next
        case nz: False
        with Some False Stored assms(2) have "prune s k = Inr s'" by (simp add: remove_def)
        then show ?thesis by (rule refs_ok_prune[OF assms(1)])
      qed
    qed
  qed
qed

lemma refs_ok_perform: "refs_ok s \<Longrightarrow> refs_ok (perform J s op)"
proof (cases op)
  case (Remove k)
  assume ok: "refs_ok s"
  show ?thesis
  proof (cases "remove J s k")
    case (Inl e)
    with Remove ok show ?thesis by simp
  next
    case (Inr s')
    with Remove refs_ok_remove[OF ok Inr] show ?thesis by simp
  qed
qed (simp_all add: refs_ok_set_trie refs_ok_reset)

lemma refs_ok_run: "refs_ok (foldl (perform J) constructor ops)"
proof -
  have "refs_ok s \<Longrightarrow> refs_ok (foldl (perform J) s ops)" for s :: "'a trie"
    by (induction ops arbitrary: s) (simp_all add: refs_ok_perform)
  moreover have "refs_ok (constructor :: 'a trie)"
    by (simp add: refs_ok_def index_reachable_def constructor_def)
  ultimately show ?thesis .
qed

lemma lookup_not_detached:
  assumes "refs_ok s"
  shows "table_lookup s k \<noteq> Detached"
proof (cases "k \<in> set (table s)")
  case True
  with refs_okD(1)[OF assms True] show ?thesis
    by (auto simp: table_lookup_def deref_def)
next
  case False
  show ?thesis
  proof (cases "map_of (stale s) k")
    case (Some n)
    with False show ?thesis by (simp add: table_lookup_def)
  next
    case None
    show ?thesis
    proof (cases "proto s")
      case np: None
      with None False show ?thesis by (simp add: table_lookup_def)
    next
      case (Some r)
      have "\<exists>n. proto_node s r = Some n"
      proof (cases r)
        case In_tree
        with refs_okD(2)[OF assms] Some show ?thesis
          unfolding proto_node_def by (simp only: ref.case) blast
      next
        case (Off_tree n)
        then show ?thesis by (simp add: proto_node_def)
      qed
      then obtain n where n: "proto_node s r = Some n" ..
      have "through_prototype n k \<noteq> Detached"
        by (simp add: through_prototype_def split: option.split)
      with None False Some n show ?thesis by (simp add: table_lookup_def)
    qed
  qed
qed

section \<open>Deletion\<close>

text \<open>
  In a store that satisfies the invariant, \<open>remove\<close> of a key \<open>k\<close> of the index
  returns normally, and in the store it leaves: \<open>get\<close> of \<open>k\<close> is absent;
  \<open>get\<close> of every other key is what it was; every result of \<open>match\<close> is, as a
  multiset, what it was less the value of \<open>k\<close> when \<open>k\<close> starts with the
  query; the index has lost \<open>k\<close> and nothing else; the invariant holds again;
  every node below the root lies on the path of a key that is still stored;
  and every node on the path of a key that is still stored is still there.
\<close>

lemma remove_in_store_inv:
  assumes "store_inv s" "k \<in> set (table s)"
  shows "\<exists>s'. remove J s k = Inr s'
           \<and> get J s' k = None
           \<and> (\<forall>k'. k' \<noteq> k \<longrightarrow> get J s' k' = get J s k')
           \<and> (\<forall>q. mset (match s' q None)
                    = mset (match s q None)
                      - (if q \<noteq> [] \<and> prefix q k then {#get J s k#} else {#}))
           \<and> set (table s') = set (table s) - {k}
           \<and> store_inv s'
           \<and> (\<forall>p m. p \<noteq> [] \<and> getClosestNode s' p = Some m \<longrightarrow>
                  (\<exists>k' \<in> set (table s'). prefix p k'))
           \<and> (\<forall>k' \<in> set (table s) - {k}. \<forall>p. prefix p k' \<longrightarrow> getClosestNode s' p \<noteq> None)"
proof -
  from remove_stored[OF assms] obtain s' where s': "remove J s k = Inr s'" "store_inv s'"
    "set (table s') = set (table s) - {k}" "get J s' k = None"
    "\<And>k'. k' \<noteq> k \<Longrightarrow> get J s' k' = get J s k'"
    by blast
  have m: "mset (match s' q None)
           = mset (match s q None) - (if q \<noteq> [] \<and> prefix q k then {#get J s k#} else {#})" for q
    by (rule match_after_remove[OF assms(1) s'(2) s'(3) assms(2) s'(5)])
  have dead: "\<exists>k' \<in> set (table s'). prefix p k'"
    if "p \<noteq> [] \<and> getClosestNode s' p = Some m" for p m
    using no_dead_node[OF s'(2), of p m] that by blast
  have live: "getClosestNode s' p \<noteq> None" if "k' \<in> set (table s) - {k}" "prefix p k'" for k' p
    using path_of_key_exists[OF s'(2), of k' p] that s'(3) by blast
  from s'(1,4) s'(5) m s'(3) s'(2) dead live show ?thesis by blast
qed

lemma store_proto_eq:
  "store_proto =
     \<lparr>rootSocket =
        [(CHR ''_'', Node None None [(CHR ''_'', Node None None [(CHR ''p'', Node None None
           [(CHR ''r'', Node None None [(CHR ''o'', Node None None [(CHR ''t'', Node None None
           [(CHR ''o'', Node None None [(CHR ''_'', Node None None
           [(CHR ''_'', Node (Some ''__proto__'') (Some 1) [])])])])])])])])]),
         (CHR ''a'', Node (Some ''a'') (Some 2) [])],
      table = [''a''], stale = [], proto = Some In_tree\<rparr>"
  by (simp add: store_proto_def set_trie_def constructor_def new_Node_socket_def new_Node_def
      table_assign_def)

lemma remove_store_proto:
  "remove numbers store_proto ''__proto__'' =
     Inr \<lparr>rootSocket = [(CHR ''a'', Node (Some ''a'') (Some 2) [])], table = [''a''], stale = [],
          proto = Some (Off_tree (Node (Some ''__proto__'') (Some 1) []))\<rparr>"
  by (simp add: store_proto_eq remove_eval)

text \<open>
  Claim C3 at the key \<open>__proto__\<close>, after \<open>set('__proto__', 1)\<close> and
  \<open>set('a', 2)\<close>. The key is stored: \<open>get\<close> returns its value and \<open>match\<close>
  finds it. \<open>remove\<close> of the key returns normally and cuts its path out of the
  tree, but the node stays the prototype of the table, where line 139 found
  it and where \<open>delete this.table[query]\<close> does not reach: \<open>get\<close> of the key
  still returns the value. In a store that satisfies the invariant, which no
  store with a replaced prototype does, the deletion is as the claim says
  (lemma \<open>remove_in_store_inv\<close>).
\<close>

theorem remove_proto_key_keeps_value:
  "get numbers store_proto ''__proto__'' = Some 1
   \<and> match store_proto ''__proto__'' None = [Some 1]
   \<and> (\<exists>s'. remove numbers store_proto ''__proto__'' = Inr s'
          \<and> getClosestNode s' ''__proto__'' = None
          \<and> get numbers s' ''__proto__'' = Some 1)"
proof -
  let ?s = "\<lparr>rootSocket = [(CHR ''a'', Node (Some ''a'') (Some 2) [])], table = [''a''],
             stale = [], proto = Some (Off_tree (Node (Some ''__proto__'') (Some (1::nat)) []))\<rparr>"
  have 1: "get numbers store_proto ''__proto__'' = Some 1"
    by (simp add: store_proto_eq get_def table_lookup_def proto_node_def through_prototype_def
        new_Node_socket_def)
  have 2: "match store_proto ''__proto__'' None = [Some 1]"
    by (simp add: store_proto_eq match_eval)
  have 3: "getClosestNode ?s ''__proto__'' = None"
    by (simp add: getClosestNode_def new_Node_socket_def)
  have 4: "get numbers ?s ''__proto__'' = Some 1"
    by (simp add: get_def table_lookup_def proto_node_def through_prototype_def)
  from 1 2 3 4 remove_store_proto show ?thesis by blast
qed

lemma store_proto_again_eq:
  "store_proto_again =
     \<lparr>rootSocket =
        [(CHR ''a'', Node (Some ''a'') (Some 2) []),
         (CHR ''_'', Node None None [(CHR ''_'', Node None None [(CHR ''p'', Node None None
           [(CHR ''r'', Node None None [(CHR ''o'', Node None None [(CHR ''t'', Node None None
           [(CHR ''o'', Node None None [(CHR ''_'', Node None None
           [(CHR ''_'', Node None None
           [(CHR ''x'', Node (Some ''__proto__x'') (Some 3) [])])])])])])])])])])],
      table = [''a'', ''__proto__x''], stale = [],
      proto = Some (Off_tree (Node (Some ''__proto__'') (Some 1) []))\<rparr>"
  by (simp add: store_proto_again_def remove_store_proto set_trie_def new_Node_socket_def
      new_Node_def table_assign_def)

lemma remove_store_proto_again:
  "remove numbers store_proto_again ''__proto__'' =
     Inr \<lparr>rootSocket = [(CHR ''a'', Node (Some ''a'') (Some 2) [])], table = [''a''],
          stale = [(''__proto__x'', Node (Some ''__proto__x'') (Some 3) [])],
          proto = Some (Off_tree (Node (Some ''__proto__'') (Some 1) []))\<rparr>"
  by (simp add: store_proto_again_eq remove_eval List.map_filter_def)

text \<open>
  Claim C1 at the query \<open>__proto__x\<close>. After \<open>set('__proto__', 1)\<close>,
  \<open>set('a', 2)\<close> and \<open>remove('__proto__')\<close> the node of the removed key is
  still the prototype of the table. Then \<open>set('__proto__x', 3)\<close> stores a key,
  and a second \<open>remove('__proto__')\<close> finds the old node again, which has no
  children, walks the path of \<open>__proto__\<close> in the tree as it is now and cuts it at
  the root, with the node of \<open>__proto__x\<close> below the cut. The key \<open>__proto__x\<close>
  was set and never removed, the table still has its entry and \<open>get\<close> returns
  its value, and \<open>match\<close> of the key returns nothing. In a store that
  satisfies the invariant \<open>match\<close> of a non-empty query returns the values of
  the keys of the index that start with the query (lemma \<open>match_prefix_mset\<close>).
\<close>

theorem match_misses_stored_key:
  "\<exists>s'. remove numbers store_proto_again ''__proto__'' = Inr s'
        \<and> ''__proto__x'' \<in> fst ` set (stale s')
        \<and> get numbers s' ''__proto__x'' = Some 3
        \<and> getClosestNode s' ''__proto__x'' = None
        \<and> match s' ''__proto__x'' None = []"
proof -
  let ?s = "\<lparr>rootSocket = [(CHR ''a'', Node (Some ''a'') (Some 2) [])], table = [''a''],
             stale = [(''__proto__x'', Node (Some ''__proto__x'') (Some (3::nat)) [])],
             proto = Some (Off_tree (Node (Some ''__proto__'') (Some (1::nat)) []))\<rparr>"
  have 1: "get numbers ?s ''__proto__x'' = Some 3"
    by (simp add: get_def table_lookup_def)
  have 2: "getClosestNode ?s ''__proto__x'' = None"
    by (simp add: getClosestNode_def new_Node_socket_def)
  then have 3: "match ?s ''__proto__x'' None = []"
    by (simp add: match_unlimited)
  have 4: "''__proto__x'' \<in> fst ` set (stale ?s)" by simp
  from 1 2 3 4 remove_store_proto_again show ?thesis by blast
qed

text \<open>
  Claim C6, as the code has it. When the node of a key of the index has no
  children, and no node on the path from the root to it (the node itself
  apart) is an anchor, \<open>remove\<close> of that key leaves the store that the
  constructor makes: no root children and no index entries.
\<close>

theorem remove_resets:
  assumes "k \<in> set (table s)" "getClosestNode s k = Some e" "socket e = []"
    "no_anchor (new_Node_socket (rootSocket s)) k"
  shows "remove J s k = Inr constructor"
proof -
  let ?root = "new_Node_socket (rootSocket s)"
  have w: "walk ?root k = Some e" using assms(2) by (simp add: getClosestNode_def)
  have lk: "table_lookup s k = Found e" using assms(1) w by (simp add: table_lookup_def deref_def)
  have "remove_loop ?root [] k None = Some None"
    by (rule remove_loop_no_anchor[OF _ assms(4)]) (simp add: w)
  with assms(3) show ?thesis
    by (simp add: remove_found[OF lk] prune_def reset_def constructor_def)
qed

theorem remove_resets_witness:
  "''ab'' \<in> set (table (set_trie constructor ''ab'' (5::nat)))
   \<and> getClosestNode (set_trie constructor ''ab'' (5::nat)) ''ab''
       = Some (Node (Some ''ab'') (Some 5) [])
   \<and> no_anchor (new_Node_socket (rootSocket (set_trie constructor ''ab'' (5::nat)))) ''ab''
   \<and> remove numbers (set_trie constructor ''ab'' (5::nat)) ''ab'' = Inr constructor"
proof -
  let ?s = "set_trie constructor ''ab'' (5::nat)"
  have s: "?s = \<lparr>rootSocket = [(CHR ''a'', Node None None
                    [(CHR ''b'', Node (Some ''ab'') (Some 5) [])])], table = [''ab''],
                  stale = [], proto = None\<rparr>"
    by (simp add: set_trie_def constructor_def new_Node_socket_def new_Node_def table_assign_def)
  have 1: "''ab'' \<in> set (table ?s)" by (simp add: s)
  have 2: "getClosestNode ?s ''ab'' = Some (Node (Some ''ab'') (Some 5) [])"
    by (simp add: s getClosestNode_def new_Node_socket_def)
  have 3: "socket (Node (Some ''ab'') (Some (5::nat)) []) = []" by simp
  have 4: "no_anchor (new_Node_socket (rootSocket ?s)) ''ab''"
    by (simp add: s remove_eval)
  from remove_resets[OF 1 2 3 4, of numbers] 1 2 4 show ?thesis by simp
qed

text \<open>
  Claim C6 as it is stated does not ask that the node of the key be childless.
  With \<open>ab\<close> and \<open>abc\<close> stored, no node on the path of \<open>ab\<close> is an anchor, and
  \<open>remove\<close> of \<open>ab\<close> keeps the tree for \<open>abc\<close>.
\<close>

theorem remove_resets_counterexample:
  "''ab'' \<in> set (table store_nested)
   \<and> no_anchor (new_Node_socket (rootSocket store_nested)) ''ab''
   \<and> remove numbers store_nested ''ab'' \<noteq> Inr constructor"
  by (simp add: store_nested_eq remove_eval constructor_def)




text \<open>
  Claim C9 at the key \<open>constructor\<close>, in the store that the constructor makes.
  The key is not in the index, but \<open>this.table['constructor']\<close> is the function
  that every plain object inherits, a truthy value without a \<open>socket\<close>:
  \<open>Object.keys(end.socket)\<close> throws a \<open>TypeError\<close>. In a store whose table has
  the prototype it had from the start and refers to no node out of the tree,
  \<open>remove\<close> of a key that is neither in the index nor an inherited name
  returns the store as it was (lemma \<open>remove_unknown\<close>).
\<close>

theorem remove_inherited_name_throws:
  "''constructor'' \<notin> set (table (constructor :: 'v trie))
   \<and> remove J (constructor :: 'v trie) ''constructor'' = Inl TypeError"
  by (simp add: constructor_def remove_def table_lookup_def Object_prototype_names_def)

section \<open>The index and the terminal nodes\<close>

text \<open>
  Claim C2 at the key \<open>__proto__\<close>, in the store that the constructor makes.
  After \<open>set('__proto__', v)\<close> the tree has a terminal node for the key and the
  index has no entry. For every sequence of operations that sets no such key
  the invariant holds (lemma \<open>store_inv_run\<close>), and under the invariant every
  key of the index leads to a node labelled by it (lemma \<open>store_inv_entry\<close>).
\<close>

theorem index_misses_proto_key:
  "table (set_trie constructor ''__proto__'' v) = []
   \<and> terminal_paths (new_Node_socket (rootSocket (set_trie constructor ''__proto__'' v)))
       = [''__proto__'']"
  by (simp add: set_trie_def constructor_def new_Node_socket_def new_Node_def table_assign_def)

section \<open>Empty keys and empty queries\<close>

text \<open>
  Claim C8. The only falsy string is the empty one. \<open>set\<close> with the empty key
  returns the store as it was: no node, no index entry, no error. \<open>match\<close> with
  the empty query returns the empty array, whatever the limit; it returns a value
  only, so the store is as it was.
\<close>

theorem empty_key_is_ignored:
  "set_trie s [] v = s \<and> match s [] cnt = []"
  by (simp add: set_trie_def match_def)

end
